theory Spec2Isabelle
  imports Main "HOL-Library.Multiset" "HOL-Library.Sublist"
begin

section \<open>Data model\<close>

text \<open>
  The script \<^verbatim>\<open>smartlead_consolidated_git.py\<close> fetches campaigns, filters them, exports
  their leads, selects campaigns up to a target number of no-reply leads, writes a backup
  of those leads and deletes them one by one.

  A campaign is a JSON object of the remote service. \<open>None\<close> in an identifier stands for
  a key that is absent (Python's \<open>None\<close>, pandas' \<open>NaN\<close> after the CSV round trip). The two
  timestamps are the results of \<^verbatim>\<open>datetime.strptime(..., "%Y-%m-%dT%H:%M:%S.%f%z")\<close>:
  \<open>Some t\<close> is the parsed instant (microseconds since the epoch; the conversion to another
  time zone keeps the instant), \<open>None\<close> a missing key or a string that does not match the
  format, where the source raises \<^verbatim>\<open>KeyError\<close>, \<^verbatim>\<open>TypeError\<close> or \<^verbatim>\<open>ValueError\<close>.
\<close>

record campaign =
  c_id :: "int option"
  c_name :: string
  c_status :: string
  c_client_id :: "int option"
  c_created_at :: "int option"
  c_updated_at :: "int option"

text \<open>
  A cell of the \<^verbatim>\<open>reply_count\<close> column of an exported CSV, as it stands in the file: a
  number, nothing, or a text that is not a number.
\<close>

datatype cell = Number int | Empty | Text string

text \<open>
  A lead is one line of an exported CSV; \<open>lead_id = None\<close> is an empty or absent
  \<^verbatim>\<open>id\<close>.
\<close>

record lead =
  lead_id :: "int option"
  reply_count :: cell

text \<open>
  What \<^verbatim>\<open>pd.read_csv\<close> makes of an export file: it raises (\<open>Unreadable\<close>), or it gives
  a table, which has a \<^verbatim>\<open>reply_count\<close> column or not.
\<close>

datatype csv_file = Unreadable | Table (has_reply_count: bool) (table_rows: "lead list")

text \<open>
  One line of the campaigns analysis CSV. The columns "Days Since Creation" (a fresh
  reading of the clock) and "Reply Rate %" (a formatted float) are written by the source
  and read by nothing; they are left out.
\<close>

record report_row =
  r_campaign_id :: "int option"
  r_campaign_name :: string
  r_status :: string
  r_client_id :: "int option"
  r_created :: int
  r_updated :: int
  r_included :: bool
  r_total_leads :: int
  r_no_reply_leads :: int

text \<open>
  One line of the deletion backup: the lead's own columns and the campaign's identifier
  and name (the "Backup Timestamp" column, a reading of the clock, is left out).
\<close>

record backup_row =
  b_lead :: lead
  b_campaign_id :: "int option"
  b_campaign_name :: string

subsection \<open>Configuration\<close>

record config =
  target_leads :: int
  days_without_activity :: int
  exclude_client_ids :: "int list"

definition TARGET_LEADS :: int where "TARGET_LEADS = 20000"
definition DAYS_WITHOUT_ACTIVITY :: int where "DAYS_WITHOUT_ACTIVITY = 30"
definition EXCLUDE_CLIENT_IDS :: "int list" where "EXCLUDE_CLIENT_IDS = [1598]"
definition MAX_RETRIES :: nat where "MAX_RETRIES = 5"
definition BACKOFF_FACTOR :: nat where "BACKOFF_FACTOR = 2"

definition script_config :: config where
  "script_config = \<lparr> target_leads = TARGET_LEADS,
     days_without_activity = DAYS_WITHOUT_ACTIVITY,
     exclude_client_ids = EXCLUDE_CLIENT_IDS \<rparr>"

subsection \<open>The remote service, errors and the trace of a run\<close>

datatype endpoint =
    List_campaigns
  | Leads_export "int option"
  | Delete_lead int int

datatype body = Json_campaigns "campaign list" | Csv_body csv_file | Other_body

record response =
  status_code :: nat
  csv_content_type :: bool
  content :: body

text \<open>
  \<open>Reply r\<close>: \<^verbatim>\<open>requests.request\<close> returned the response \<open>r\<close>. \<open>No_reply\<close>: it raised
  \<^verbatim>\<open>ConnectionError\<close>, \<^verbatim>\<open>Timeout\<close> or another \<^verbatim>\<open>RequestException\<close>.
  The remote service is any function from the number of the call (the calls of a run
  counted from 0) to what that call gets: nothing is assumed of the service.
\<close>

datatype outcome = Reply response | No_reply

type_synonym remote = "nat \<Rightarrow> outcome"

text \<open>
  What the \<^verbatim>\<open>try\<close> block of \<^verbatim>\<open>send_email\<close> can raise: composing the message, reading
  an attachment, or the SMTP session.
\<close>

datatype mail_error = Compose_error | Attachment_read_error string | Smtp_error

text \<open>
  The exceptions of a run: the four that \<^verbatim>\<open>run_full_process\<close> raises itself, and
  those of the calls it does not guard.
\<close>

datatype error =
    No_campaigns_retrieved
  | No_campaigns_match
  | No_campaigns_selected
  | No_leads_for_backup
  | Json_decode_error
  | Backup_write_error
  | File_error
  | Email_exception mail_error
  | Missing_environment "string list"

datatype message =
    Request_failed endpoint nat
  | Campaign_skipped "int option"
  | Export_failed "int option"
  | Row_missing_ids nat
  | Lead_already_deleted int
  | Lead_delete_failed int int
  | Progress nat nat
  | Attachment_not_found string
  | Email_ok
  | Email_failed mail_error
  | Completion_email_ok
  | Completion_email_failed
  | Campaigns_not_retrieved
  | Process_failed error
  | Process_completed
  | No_leads_to_delete
  | No_leads_found

datatype event =
    Http_request endpoint
  | Backoff_sleep nat
  | Rate_limit_sleep
  | Step nat
  | Log message
  | Report_written "report_row list"
  | Backup_written "backup_row list"
  | Email_attempt string "string list"
  | Email_dispatched string "string list"
  | Critical_error error
  | Exit_process nat

text \<open>
  The state of a run: the number of HTTP calls made so far, the number of operations on
  local files made so far (by the exports and the lines of the report), the events so
  far in the order they happened, the processor's \<^verbatim>\<open>execution_stats\<close> and
  \<^verbatim>\<open>output_files\<close>, and the content of the campaigns analysis CSV on disk.
\<close>

record state =
  requests :: nat
  file_ops :: nat
  trace :: "event list"
  campaigns_fetched :: nat
  campaigns_filtered :: nat
  campaigns_selected :: nat
  total_leads_exported :: nat
  no_reply_leads_found :: nat
  leads_backed_up :: nat
  leads_deleted_success :: nat
  leads_deleted_failed :: nat
  output_files :: "string list"
  report_csv :: "report_row list"

definition initial_state :: state where
  "initial_state = \<lparr> requests = 0, file_ops = 0, trace = [],
     campaigns_fetched = 0, campaigns_filtered = 0, campaigns_selected = 0,
     total_leads_exported = 0, no_reply_leads_found = 0, leads_backed_up = 0,
     leads_deleted_success = 0, leads_deleted_failed = 0,
     output_files = [], report_csv = [] \<rparr>"

definition emit :: "event \<Rightarrow> state \<Rightarrow> state" where
  "emit e s = s\<lparr>trace := trace s @ [e]\<rparr>"

section \<open>send_request\<close>

text \<open>
  \<^verbatim>\<open>response.raise_for_status()\<close> raises \<^verbatim>\<open>HTTPError\<close> for a status from 400 to 599;
  \<^verbatim>\<open>bool(response)\<close> is \<^verbatim>\<open>response.ok\<close>, true when it does not raise.
\<close>

definition raises_for_status :: "response \<Rightarrow> bool" where
  "raises_for_status r = (400 \<le> status_code r \<and> status_code r < 600)"

definition truthy :: "response \<Rightarrow> bool" where
  "truthy r = (\<not> raises_for_status r)"

text \<open>
  \<^verbatim>\<open>for attempt in range(1, MAX_RETRIES + 1)\<close>: the call, then either the response is
  returned or the error is logged and the loop sleeps \<^verbatim>\<open>BACKOFF_FACTOR ** attempt\<close>.
  The second argument counts the attempts left.
\<close>

fun send_request_from :: "nat \<Rightarrow> nat \<Rightarrow> remote \<Rightarrow> endpoint \<Rightarrow> state \<Rightarrow> response option \<times> state" where
  "send_request_from attempt 0 rem ep s = (None, s)"
| "send_request_from attempt (Suc left) rem ep s =
     (let s1 = (emit (Http_request ep) s)\<lparr>requests := Suc (requests s)\<rparr>;
          retry = (\<lambda>u::unit. send_request_from (Suc attempt) left rem ep
                     (emit (Backoff_sleep (BACKOFF_FACTOR ^ attempt))
                        (emit (Log (Request_failed ep attempt)) s1)))
      in case rem (requests s) of
           Reply r \<Rightarrow> if raises_for_status r then retry () else (Some r, s1)
         | No_reply \<Rightarrow> retry ())"

definition send_request :: "remote \<Rightarrow> endpoint \<Rightarrow> state \<Rightarrow> response option \<times> state" where
  "send_request rem ep s = send_request_from 1 MAX_RETRIES rem ep s"

section \<open>analyze_campaign_leads\<close>

text \<open>
  \<^verbatim>\<open>pd.read_csv\<close> gives the column one type. When every cell is a number or empty the
  column is numeric, an empty cell is \<open>NaN\<close>, and \<^verbatim>\<open>df['reply_count'] == 0\<close> holds for
  the cells that equal 0 (\<open>NaN == 0\<close> is false). When a cell is a text the column is a
  column of strings, and no string equals the number 0: no line is kept. (This is the
  reading of a file that \<^verbatim>\<open>read_csv\<close> parses in one piece.)
\<close>

fun is_text :: "cell \<Rightarrow> bool" where
  "is_text (Text t) = True"
| "is_text c = False"

definition equals_zero :: "lead list \<Rightarrow> lead \<Rightarrow> bool" where
  "equals_zero df l =
     (if list_ex (\<lambda>l'. is_text (reply_count l')) df then False
      else reply_count l = Number 0)"

text \<open>
  A file that cannot be read and a table with no \<^verbatim>\<open>reply_count\<close> column raise inside
  the \<^verbatim>\<open>try\<close>: the result is the empty frame, 0, 0.
\<close>

definition analyze_campaign_leads :: "csv_file \<Rightarrow> lead list \<times> nat \<times> nat" where
  "analyze_campaign_leads f =
     (case f of
        Unreadable \<Rightarrow> ([], 0, 0)
      | Table has_col df \<Rightarrow>
          if \<not> has_col then ([], 0, 0)
          else (let no_reply_leads = filter (equals_zero df) df
                in (no_reply_leads, length df, length no_reply_leads)))"

section \<open>Deleting the leads\<close>

definition delete_single_lead :: "remote \<Rightarrow> int \<Rightarrow> int \<Rightarrow> state \<Rightarrow> bool \<times> state" where
  "delete_single_lead rem campaign_id lid s =
     (let (resp, s1) = send_request rem (Delete_lead campaign_id lid) s
      in case resp of
           None \<Rightarrow> (False, emit (Log (Lead_delete_failed campaign_id lid)) s1)
         | Some r \<Rightarrow>
             if truthy r \<and> status_code r = 200 then (True, s1)
             else if truthy r \<and> status_code r = 404
               then (True, emit (Log (Lead_already_deleted lid)) s1)
             else (False, emit (Log (Lead_delete_failed campaign_id lid)) s1))"

text \<open>
  The loop of \<^verbatim>\<open>delete_leads\<close> over the lines of the backup; \<open>idx\<close> is the line's index,
  \<open>n_rows\<close> the number of lines (for the progress message). A line with a missing
  identifier is counted as failed and the loop goes on with \<^verbatim>\<open>continue\<close>.
\<close>

fun delete_rows :: "remote \<Rightarrow> nat \<Rightarrow> nat \<Rightarrow> backup_row list \<Rightarrow> nat \<times> nat \<Rightarrow> state
    \<Rightarrow> (nat \<times> nat) \<times> state" where
  "delete_rows rem n_rows idx [] counts s = (counts, s)"
| "delete_rows rem n_rows idx (row # rows) (success_count, failed_count) s =
     (case (b_campaign_id row, lead_id (b_lead row)) of
        (Some campaign_id, Some lid) \<Rightarrow>
          (let (ok, s1) = delete_single_lead rem campaign_id lid s;
               success_count' = (if ok then success_count + 1 else success_count);
               failed_count' = (if ok then failed_count else failed_count + 1);
               s2 = emit Rate_limit_sleep s1;
               s3 = (if (success_count' + failed_count') mod 100 = 0
                     then emit (Log (Progress (success_count' + failed_count') n_rows)) s2
                     else s2)
           in delete_rows rem n_rows (Suc idx) rows (success_count', failed_count') s3)
      | _ \<Rightarrow>
          delete_rows rem n_rows (Suc idx) rows (success_count, failed_count + 1)
            (emit (Log (Row_missing_ids idx)) s))"

definition delete_leads :: "remote \<Rightarrow> backup_row list \<Rightarrow> state \<Rightarrow> state" where
  "delete_leads rem backup_df s =
     (if backup_df = [] then emit (Log No_leads_to_delete) s
      else (let ((success_count, failed_count), s1) =
                  delete_rows rem (length backup_df) 0 backup_df (0, 0) s
            in s1\<lparr>leads_deleted_success := success_count,
                  leads_deleted_failed := failed_count\<rparr>))"

section \<open>Fetching campaigns and exporting leads\<close>

definition fetch_all_campaigns :: "remote \<Rightarrow> state \<Rightarrow> (error + campaign list) \<times> state" where
  "fetch_all_campaigns rem s =
     (let (resp, s1) = send_request rem List_campaigns s
      in case resp of
           None \<Rightarrow> (Inr [], emit (Log Campaigns_not_retrieved) s1)
         | Some r \<Rightarrow>
             if truthy r
             then (case content r of
                     Json_campaigns campaigns \<Rightarrow> (Inr campaigns, s1)
                   | _ \<Rightarrow> (Inl Json_decode_error, s1))
             else (Inr [], emit (Log Campaigns_not_retrieved) s1))"

text \<open>
  The local disk is any function from the number of the file operation (the operations
  of a run counted from 0) to whether that operation succeeds; a failed operation raises
  \<^verbatim>\<open>OSError\<close>.
\<close>

type_synonym disk = "nat \<Rightarrow> bool"

definition file_op :: "state \<Rightarrow> state" where
  "file_op s = s\<lparr>file_ops := Suc (file_ops s)\<rparr>"

text \<open>
  \<^verbatim>\<open>export_leads_csv\<close> makes the export folder and removes a stale file (one file
  operation), sends the request, writes the body of the response to the campaign's
  export file (another one) and returns the file's name; the model returns what
  \<^verbatim>\<open>pd.read_csv\<close> will make of that file, or \<open>None\<close> where the source returns
  \<^verbatim>\<open>None\<close>. Nothing in the function guards the file operations.
\<close>

definition export_leads_csv :: "remote \<Rightarrow> disk \<Rightarrow> int option \<Rightarrow> state
    \<Rightarrow> (error + csv_file option) \<times> state" where
  "export_leads_csv rem dsk campaign_id s =
     (if \<not> dsk (file_ops s) then (Inl File_error, file_op s)
      else (let (resp, s1) = send_request rem (Leads_export campaign_id) (file_op s)
            in case resp of
                 None \<Rightarrow> (Inr None, emit (Log (Export_failed campaign_id)) s1)
               | Some r \<Rightarrow>
                   if truthy r \<and> status_code r = 200 \<and> csv_content_type r
                   then (if \<not> dsk (file_ops s1) then (Inl File_error, file_op s1)
                         else (Inr (Some (case content r of Csv_body f \<Rightarrow> f | _ \<Rightarrow> Unreadable)),
                               file_op s1))
                   else (Inr None, emit (Log (Export_failed campaign_id)) s1)))"

section \<open>filter_and_analyze_campaigns\<close>

text \<open>
  \<^verbatim>\<open>client_id not in EXCLUDE_CLIENT_IDS and status in ("PAUSED", "COMPLETED") and
  created_ist <= cutoff_date\<close>. A campaign with no client (\<open>None\<close>) is in no list of
  integers.
\<close>

definition include_campaign :: "config \<Rightarrow> int \<Rightarrow> campaign \<Rightarrow> int \<Rightarrow> bool" where
  "include_campaign cfg cutoff_date c created_ist =
     ((case c_client_id c of None \<Rightarrow> True | Some client_id \<Rightarrow> client_id \<notin> set (exclude_client_ids cfg))
      \<and> (c_status c = ''PAUSED'' \<or> c_status c = ''COMPLETED'')
      \<and> created_ist \<le> cutoff_date)"

text \<open>
  The export and the analysis of an included campaign, inside the \<^verbatim>\<open>try\<close> of the loop:
  the total and the no-reply count, both 0 when the export returns \<^verbatim>\<open>None\<close>.
\<close>

definition export_and_count :: "remote \<Rightarrow> disk \<Rightarrow> int option \<Rightarrow> state
    \<Rightarrow> (error + int \<times> int) \<times> state" where
  "export_and_count rem dsk campaign_id s =
     (case export_leads_csv rem dsk campaign_id s of
        (Inl e, s') \<Rightarrow> (Inl e, s')
      | (Inr None, s') \<Rightarrow> (Inr (0, 0), s')
      | (Inr (Some leads_file), s') \<Rightarrow>
          (let (df, total_leads, no_reply_count) = analyze_campaign_leads leads_file
           in (Inr (int total_leads, int no_reply_count), s')))"

text \<open>
  The body of the loop over the campaigns. The two timestamps are parsed first; an
  included campaign is appended to the filtered list; then its leads are exported and
  counted, and the line is written to the report (a file operation). When any of this
  raises, the \<^verbatim>\<open>except\<close> branch logs the campaign and the loop goes on: no line is
  written for it, and a campaign that was already appended stays in the filtered list.
\<close>

fun filter_loop :: "config \<Rightarrow> remote \<Rightarrow> disk \<Rightarrow> int \<Rightarrow> campaign list
    \<Rightarrow> report_row list \<times> campaign list \<Rightarrow> state
    \<Rightarrow> (report_row list \<times> campaign list) \<times> state" where
  "filter_loop cfg rem dsk cutoff_date [] acc s = (acc, s)"
| "filter_loop cfg rem dsk cutoff_date (c # cs) (written, filtered_campaigns) s =
     (case (c_created_at c, c_updated_at c) of
        (Some created, Some updated) \<Rightarrow>
          (let inc = include_campaign cfg cutoff_date c created;
               filtered_campaigns' = (if inc then filtered_campaigns @ [c] else filtered_campaigns)
           in case (if inc then export_and_count rem dsk (c_id c) s else (Inr (0, 0), s)) of
                (Inl e, s1) \<Rightarrow>
                  filter_loop cfg rem dsk cutoff_date cs (written, filtered_campaigns')
                    (emit (Log (Campaign_skipped (c_id c))) s1)
              | (Inr (total_leads, no_reply_leads), s1) \<Rightarrow>
                  if \<not> dsk (file_ops s1)
                  then filter_loop cfg rem dsk cutoff_date cs (written, filtered_campaigns')
                         (emit (Log (Campaign_skipped (c_id c))) (file_op s1))
                  else filter_loop cfg rem dsk cutoff_date cs
                         (written @ [\<lparr> r_campaign_id = c_id c, r_campaign_name = c_name c,
                             r_status = c_status c, r_client_id = c_client_id c,
                             r_created = created, r_updated = updated, r_included = inc,
                             r_total_leads = total_leads, r_no_reply_leads = no_reply_leads \<rparr>],
                          filtered_campaigns')
                         (file_op s1))
      | _ \<Rightarrow>
          filter_loop cfg rem dsk cutoff_date cs (written, filtered_campaigns)
            (emit (Log (Campaign_skipped (c_id c))) s))"

definition day_us :: int where
  "day_us = 86400000000"

text \<open>
  \<open>now\<close> is the reading of the clock at the start of the function. The report file is
  taken to open and to take its header line.
\<close>

definition filter_and_analyze_campaigns :: "config \<Rightarrow> remote \<Rightarrow> disk \<Rightarrow> int \<Rightarrow> campaign list
    \<Rightarrow> state \<Rightarrow> campaign list \<times> state" where
  "filter_and_analyze_campaigns cfg rem dsk now campaigns s =
     (let cutoff_date = now - days_without_activity cfg * day_us;
          s0 = s\<lparr>output_files := output_files s @ [''all_campaigns_analysis.csv'']\<rparr>;
          ((written, filtered_campaigns), s1) = filter_loop cfg rem dsk cutoff_date campaigns ([], []) s0;
          s2 = (emit (Report_written written) s1)\<lparr>report_csv := written\<rparr>
      in (filtered_campaigns,
          s2\<lparr>campaigns_fetched := length campaigns,
             campaigns_filtered := length filtered_campaigns\<rparr>))"

section \<open>select_campaigns_for_deletion\<close>

text \<open>
  The loop over the sorted lines: a line with no no-reply lead is skipped, any other is
  selected and its count added, and the loop ends once the sum has reached the target.
  The counts are those the filter wrote, integers.
\<close>

fun select_loop :: "int \<Rightarrow> report_row list \<Rightarrow> report_row list \<times> int \<Rightarrow> report_row list \<times> int" where
  "select_loop target [] acc = acc"
| "select_loop target (row # rows) (selected, cumulative_leads) =
     (if r_no_reply_leads row \<le> 0 then select_loop target rows (selected, cumulative_leads)
      else (let selected' = selected @ [row];
                cumulative_leads' = cumulative_leads + r_no_reply_leads row
            in if cumulative_leads' \<ge> target then (selected', cumulative_leads')
               else select_loop target rows (selected', cumulative_leads')))"

text \<open>
  The function reads the campaigns analysis CSV back, keeps the lines marked "Yes" and
  sorts them with \<^verbatim>\<open>sort_values(by="No Reply Leads", ascending=False)\<close>. That sort is
  pandas' (its default \<^verbatim>\<open>kind\<close>, quicksort), not code of the script: it is the parameter
  \<open>sort_values\<close>. The argument \<open>filtered_campaigns\<close> is not used, as in the source.
\<close>

definition select_campaigns_for_deletion :: "(report_row list \<Rightarrow> report_row list) \<Rightarrow> config
    \<Rightarrow> campaign list \<Rightarrow> state \<Rightarrow> report_row list \<times> state" where
  "select_campaigns_for_deletion sort_values cfg filtered_campaigns s =
     (let campaigns_df = filter r_included (report_csv s);
          campaigns_sorted = sort_values campaigns_df;
          (selected_campaigns, cumulative_leads) =
             select_loop (target_leads cfg) campaigns_sorted ([], 0)
      in (selected_campaigns, s\<lparr>campaigns_selected := length selected_campaigns\<rparr>))"

section \<open>create_deletion_backup\<close>

definition tag_lead :: "report_row \<Rightarrow> lead \<Rightarrow> backup_row" where
  "tag_lead campaign_row l =
     \<lparr> b_lead = l, b_campaign_id = r_campaign_id campaign_row,
       b_campaign_name = r_campaign_name campaign_row \<rparr>"

text \<open>
  The loop over the selected campaigns. An export that returns \<^verbatim>\<open>None\<close> is logged
  and the loop goes on; a file operation of the export that raises is not guarded and
  ends the function.
\<close>

fun backup_loop :: "remote \<Rightarrow> disk \<Rightarrow> report_row list \<Rightarrow> backup_row list list \<Rightarrow> state
    \<Rightarrow> (error + backup_row list list) \<times> state" where
  "backup_loop rem dsk [] all_deletion_leads s = (Inr all_deletion_leads, s)"
| "backup_loop rem dsk (campaign_row # campaign_rows) all_deletion_leads s =
     (case export_leads_csv rem dsk (r_campaign_id campaign_row) s of
        (Inl e, s1) \<Rightarrow> (Inl e, s1)
      | (Inr None, s1) \<Rightarrow>
          backup_loop rem dsk campaign_rows all_deletion_leads
            (emit (Log (Export_failed (r_campaign_id campaign_row))) s1)
      | (Inr (Some leads_file), s1) \<Rightarrow>
          (let (no_reply_df, total_leads, no_reply_count) = analyze_campaign_leads leads_file
           in if no_reply_df \<noteq> []
              then backup_loop rem dsk campaign_rows
                     (all_deletion_leads @ [map (tag_lead campaign_row) no_reply_df])
                     (s1\<lparr>total_leads_exported := total_leads_exported s1 + total_leads,
                         no_reply_leads_found := no_reply_leads_found s1 + no_reply_count\<rparr>)
              else backup_loop rem dsk campaign_rows all_deletion_leads s1))"

text \<open>
  \<open>write_ok\<close> says whether \<^verbatim>\<open>backup_df.to_csv\<close> returns; when it raises, nothing
  guards it in this function.
\<close>

definition create_deletion_backup :: "bool \<Rightarrow> remote \<Rightarrow> disk \<Rightarrow> report_row list \<Rightarrow> state
    \<Rightarrow> (error + string option \<times> backup_row list) \<times> state" where
  "create_deletion_backup write_ok rem dsk selected_campaigns s =
     (let backup_csv = ''leads_deletion_backup.csv'';
          s0 = s\<lparr>output_files := output_files s @ [backup_csv]\<rparr>
      in case backup_loop rem dsk selected_campaigns [] s0 of
           (Inl e, s1) \<Rightarrow> (Inl e, s1)
         | (Inr all_deletion_leads, s1) \<Rightarrow>
             if all_deletion_leads \<noteq> []
             then (let backup_df = concat all_deletion_leads
                   in if write_ok
                      then (Inr (Some backup_csv, backup_df),
                            (emit (Backup_written backup_df) s1)\<lparr>leads_backed_up := length backup_df\<rparr>)
                      else (Inl Backup_write_error, s1))
             else (Inr (None, []), emit (Log No_leads_found) s1))"

section \<open>send_email\<close>

text \<open>
  What the mail depends on outside the script: whether composing the message raises,
  which paths are files, which of them cannot be read, and whether the SMTP session
  (connection, login, sending) raises.
\<close>

record mail_env =
  compose_fails :: bool
  isfile :: "string \<Rightarrow> bool"
  read_fails :: "string \<Rightarrow> bool"
  smtp_fails :: bool

fun attach_files :: "mail_env \<Rightarrow> string list \<Rightarrow> string list \<Rightarrow> state
    \<Rightarrow> (mail_error + string list) \<times> state" where
  "attach_files env [] attached s = (Inr attached, s)"
| "attach_files env (file_path # paths) attached s =
     (if isfile env file_path
      then (if read_fails env file_path then (Inl (Attachment_read_error file_path), s)
            else attach_files env paths (attached @ [file_path]) s)
      else attach_files env paths attached (emit (Log (Attachment_not_found file_path)) s))"

text \<open>The \<^verbatim>\<open>try\<close> block of \<^verbatim>\<open>send_email\<close>.\<close>

definition send_email_try :: "mail_env \<Rightarrow> string \<Rightarrow> string \<Rightarrow> string list \<Rightarrow> state
    \<Rightarrow> (mail_error + bool) \<times> state" where
  "send_email_try env subject body_text attachments s =
     (if compose_fails env then (Inl Compose_error, s)
      else (case attach_files env attachments [] s of
              (Inl e, s1) \<Rightarrow> (Inl e, s1)
            | (Inr attached, s1) \<Rightarrow>
                if smtp_fails env then (Inl Smtp_error, s1)
                else (Inr True, emit (Log Email_ok) (emit (Email_dispatched subject attached) s1))))"

text \<open>\<^verbatim>\<open>except Exception\<close>: the error is logged and the result is \<^verbatim>\<open>False\<close>.\<close>

definition send_email :: "mail_env \<Rightarrow> string \<Rightarrow> string \<Rightarrow> string list \<Rightarrow> state
    \<Rightarrow> (mail_error + bool) \<times> state" where
  "send_email env subject body_text attachments s =
     (case send_email_try env subject body_text attachments (emit (Email_attempt subject attachments) s) of
        (Inl e, s1) \<Rightarrow> (Inr False, emit (Log (Email_failed e)) s1)
      | (Inr sent, s1) \<Rightarrow> (Inr sent, s1))"

section \<open>The run\<close>

record environment =
  remote_service :: remote
  local_disk :: disk
  clock_now :: int
  backup_write_ok :: bool
  mail :: mail_env
  api_key :: string
  sender_email :: string
  app_password :: string
  recipient_emails :: string

definition log_filename :: string where
  "log_filename = ''smartlead_deletion.log''"

definition send_completion_email :: "environment \<Rightarrow> state \<Rightarrow> (error + unit) \<times> state" where
  "send_completion_email env s =
     (case send_email (mail env) ''SmartLead Deletion Complete'' ''SmartLead Lead Deletion Process Completed''
             (log_filename # output_files s) s of
        (Inl e, s1) \<Rightarrow> (Inl (Email_exception e), s1)
      | (Inr sent, s1) \<Rightarrow>
          (Inr (), emit (Log (if sent then Completion_email_ok else Completion_email_failed)) s1))"

definition send_failure_email :: "environment \<Rightarrow> error \<Rightarrow> state \<Rightarrow> (error + unit) \<times> state" where
  "send_failure_email env error_message s =
     (case send_email (mail env) ''SmartLead Deletion FAILED'' ''SmartLead Lead Deletion Process FAILED''
             (log_filename # output_files s) s of
        (Inl e, s1) \<Rightarrow> (Inl (Email_exception e), s1)
      | (Inr sent, s1) \<Rightarrow> (Inr (), s1))"

text \<open>The \<^verbatim>\<open>try\<close> block of \<^verbatim>\<open>run_full_process\<close>: the six steps, each announced in the log.\<close>

definition run_steps :: "(report_row list \<Rightarrow> report_row list) \<Rightarrow> config \<Rightarrow> environment \<Rightarrow> state
    \<Rightarrow> (error + unit) \<times> state" where
  "run_steps sort_values cfg env s =
     (case fetch_all_campaigns (remote_service env) (emit (Step 1) s) of
        (Inl e, s1) \<Rightarrow> (Inl e, s1)
      | (Inr campaigns, s1) \<Rightarrow>
     if campaigns = [] then (Inl No_campaigns_retrieved, s1)
     else (case filter_and_analyze_campaigns cfg (remote_service env) (local_disk env) (clock_now env) campaigns
                  (emit (Step 2) s1) of
        (filtered_campaigns, s2) \<Rightarrow>
     if filtered_campaigns = [] then (Inl No_campaigns_match, s2)
     else (case select_campaigns_for_deletion sort_values cfg filtered_campaigns (emit (Step 3) s2) of
        (selected_campaigns, s3) \<Rightarrow>
     if length selected_campaigns = 0 then (Inl No_campaigns_selected, s3)
     else (case create_deletion_backup (backup_write_ok env) (remote_service env) (local_disk env)
                  selected_campaigns
                  (emit (Step 4) s3) of
        (Inl e, s4) \<Rightarrow> (Inl e, s4)
      | (Inr (backup_file, backup_df), s4) \<Rightarrow>
     if backup_df = [] then (Inl No_leads_for_backup, s4)
     else (let s5 = delete_leads (remote_service env) backup_df (emit (Step 5) s4)
           in case send_completion_email env (emit (Step 6) s5) of
                (Inl e, s6) \<Rightarrow> (Inl e, s6)
              | (Inr u, s6) \<Rightarrow> (Inr (), emit (Log Process_completed) s6))))))"

text \<open>
  \<^verbatim>\<open>except Exception as e\<close>: the failure is logged, the failure email is sent and the
  exception is raised again.
\<close>

definition run_full_process :: "(report_row list \<Rightarrow> report_row list) \<Rightarrow> config \<Rightarrow> environment
    \<Rightarrow> state \<Rightarrow> (error + unit) \<times> state" where
  "run_full_process sort_values cfg env s =
     (case run_steps sort_values cfg env s of
        (Inr u, s1) \<Rightarrow> (Inr u, s1)
      | (Inl e, s1) \<Rightarrow>
          (case send_failure_email env e (emit (Log (Process_failed e)) s1) of
             (Inl e', s2) \<Rightarrow> (Inl e', s2)
           | (Inr u, s2) \<Rightarrow> (Inl e, s2)))"

text \<open>
  \<^verbatim>\<open>RECIPIENT_EMAILS[0] if RECIPIENT_EMAILS else None\<close> is the first character of the
  string, present when the string is not empty.
\<close>

definition validate_environment :: "environment \<Rightarrow> error + unit" where
  "validate_environment env =
     (let required_vars = [(''SMARTLEAD_API_KEY'', api_key env), (''EMAIL_SENDER'', sender_email env),
                           (''EMAIL_PASSWORD'', app_password env),
                           (''EMAIL_RECIPIENTS'', take 1 (recipient_emails env))];
          missing_vars = map fst (filter (\<lambda>(var, v). v = []) required_vars)
      in if missing_vars \<noteq> [] then Inl (Missing_environment missing_vars) else Inr ())"

text \<open>
  \<^verbatim>\<open>main\<close> returns the exit status of the process: 1 from \<^verbatim>\<open>exit(1)\<close> in the \<^verbatim>\<open>except\<close>
  branch, 0 when the function returns.
\<close>

definition main :: "(report_row list \<Rightarrow> report_row list) \<Rightarrow> config \<Rightarrow> environment \<Rightarrow> nat \<times> state" where
  "main sort_values cfg env =
     (case validate_environment env of
        Inl e \<Rightarrow> (1, emit (Exit_process 1) (emit (Critical_error e) initial_state))
      | Inr u \<Rightarrow>
          (case run_full_process sort_values cfg env initial_state of
             (Inl e, s) \<Rightarrow> (1, emit (Exit_process 1) (emit (Critical_error e) s))
           | (Inr u', s) \<Rightarrow> (0, s)))"

section \<open>Notions used in the statements\<close>

text \<open>A line of the backup that has both identifiers, so that a delete call is made for it.\<close>

definition has_ids :: "backup_row \<Rightarrow> bool" where
  "has_ids row = (b_campaign_id row \<noteq> None \<and> lead_id (b_lead row) \<noteq> None)"

text \<open>
  The classification as the specification words it: a lead is non-responding when its
  reply count is zero or missing.
\<close>

definition claimed_non_responding :: "lead \<Rightarrow> bool" where
  "claimed_non_responding l = (reply_count l = Number 0 \<or> reply_count l = Empty)"

text \<open>An export whose \<^verbatim>\<open>reply_count\<close> column is read as numbers: no cell is a text.\<close>

definition numeric_column :: "lead list \<Rightarrow> bool" where
  "numeric_column df = (\<not> list_ex (\<lambda>l. is_text (reply_count l)) df)"

text \<open>Lines in descending order of their no-reply counts, and the sum of those counts.\<close>

definition descending :: "report_row list \<Rightarrow> bool" where
  "descending rows = sorted_wrt (\<lambda>a b. r_no_reply_leads a \<ge> r_no_reply_leads b) rows"

definition count_sum :: "report_row list \<Rightarrow> int" where
  "count_sum rows = sum_list (map r_no_reply_leads rows)"

text \<open>
  One sort that meets the contract of \<^verbatim>\<open>sort_values(..., ascending=False)\<close>: descending,
  equal counts in the order of the report.
\<close>

definition stable_sort_desc :: "report_row list \<Rightarrow> report_row list" where
  "stable_sort_desc rows = sort_key (\<lambda>r. - r_no_reply_leads r) rows"

subsection \<open>Concrete inputs\<close>

definition example_row :: "int \<Rightarrow> int \<Rightarrow> report_row" where
  "example_row cid n = \<lparr> r_campaign_id = Some cid, r_campaign_name = ''campaign'',
       r_status = ''PAUSED'', r_client_id = Some 5, r_created = 0, r_updated = 0,
       r_included = True, r_total_leads = n, r_no_reply_leads = n \<rparr>"

definition example_report :: "report_row list" where
  "example_report = [example_row 1 50, example_row 2 30, example_row 3 20, example_row 4 5]"

subsection \<open>Events of the trace\<close>

text \<open>
  \<open>appends P s s'\<close>: the trace of \<open>s'\<close> is the trace of \<open>s\<close> followed by events that all
  satisfy \<open>P\<close>.
\<close>

definition appends :: "(event \<Rightarrow> bool) \<Rightarrow> state \<Rightarrow> state \<Rightarrow> bool" where
  "appends P s s' = (\<exists>evs. trace s' = trace s @ evs \<and> list_all P evs)"

text \<open>The events of one \<^verbatim>\<open>send_request\<close> to an endpoint.\<close>

fun request_event :: "endpoint \<Rightarrow> event \<Rightarrow> bool" where
  "request_event ep (Http_request ep') = (ep' = ep)"
| "request_event ep (Backoff_sleep n) = True"
| "request_event ep (Log (Request_failed ep' n)) = (ep' = ep)"
| "request_event ep e = False"


fun is_delete_request :: "event \<Rightarrow> bool" where
  "is_delete_request (Http_request (Delete_lead c l)) = True"
| "is_delete_request e = False"

text \<open>The events of \<^verbatim>\<open>delete_single_lead\<close> for one lead.\<close>

definition delete_call_event :: "int \<Rightarrow> int \<Rightarrow> event \<Rightarrow> bool" where
  "delete_call_event c l e =
     (request_event (Delete_lead c l) e \<or> e = Log (Lead_already_deleted l)
      \<or> e = Log (Lead_delete_failed c l))"

text \<open>
  The events of the deletion of a backup: delete calls for leads of the backup only,
  sleeps and log lines.
\<close>

definition in_backup :: "backup_row list \<Rightarrow> int \<Rightarrow> int \<Rightarrow> bool" where
  "in_backup df c l = (\<exists>row\<in>set df. b_campaign_id row = Some c \<and> lead_id (b_lead row) = Some l)"

fun deletion_event :: "backup_row list \<Rightarrow> event \<Rightarrow> bool" where
  "deletion_event df (Http_request (Delete_lead c l)) = in_backup df c l"
| "deletion_event df (Backoff_sleep n) = True"
| "deletion_event df Rate_limit_sleep = True"
| "deletion_event df (Log m) = True"
| "deletion_event df e = False"

definition not_found :: response where
  "not_found = \<lparr> status_code = 404, csv_content_type = False, content = Other_body \<rparr>"

definition ok_response :: response where
  "ok_response = \<lparr> status_code = 200, csv_content_type = False, content = Other_body \<rparr>"

definition example_lead :: "int \<Rightarrow> backup_row" where
  "example_lead l = \<lparr> b_lead = \<lparr>lead_id = Some l, reply_count = Number 0\<rparr>,
     b_campaign_id = Some 7, b_campaign_name = ''campaign'' \<rparr>"



definition example_mail_env :: mail_env where
  "example_mail_env = \<lparr> compose_fails = False, isfile = (\<lambda>p. p = log_filename),
      read_fails = (\<lambda>p. False), smtp_fails = False \<rparr>"

subsection \<open>The campaign filter\<close>

text \<open>A campaign whose two timestamps are parsed.\<close>

definition timestamps_parse :: "campaign \<Rightarrow> bool" where
  "timestamps_parse c = (c_created_at c \<noteq> None \<and> c_updated_at c \<noteq> None)"

text \<open>
  The inclusion rule as the specification words it: the client is not excluded, the
  status is paused or completed, and the creation time is at or before the cutoff.
\<close>

definition claimed_inclusion :: "config \<Rightarrow> int \<Rightarrow> campaign \<Rightarrow> bool" where
  "claimed_inclusion cfg cutoff_date c =
     ((case c_client_id c of None \<Rightarrow> True | Some k \<Rightarrow> k \<notin> set (exclude_client_ids cfg))
      \<and> c_status c \<in> {''PAUSED'', ''COMPLETED''}
      \<and> (case c_created_at c of None \<Rightarrow> False | Some t \<Rightarrow> t \<le> cutoff_date))"

text \<open>The same rule read off a line of the report.\<close>

definition row_decision :: "config \<Rightarrow> int \<Rightarrow> report_row \<Rightarrow> bool" where
  "row_decision cfg cutoff_date row =
     ((case r_client_id row of None \<Rightarrow> True | Some k \<Rightarrow> k \<notin> set (exclude_client_ids cfg))
      \<and> r_status row \<in> {''PAUSED'', ''COMPLETED''}
      \<and> r_created row \<le> cutoff_date)"

text \<open>A line of the report that is the line of a campaign.\<close>

definition row_of_campaign :: "campaign \<Rightarrow> report_row \<Rightarrow> bool" where
  "row_of_campaign c row =
     (r_campaign_id row = c_id c \<and> r_campaign_name row = c_name c \<and> r_status row = c_status c
      \<and> r_client_id row = c_client_id c \<and> c_created_at c = Some (r_created row)
      \<and> c_updated_at c = Some (r_updated row))"

text \<open>
  Events that are neither the mark of a step, nor a delete call, nor the writing of the
  backup, nor a mail, nor the end of the process.
\<close>

fun quiet :: "event \<Rightarrow> bool" where
  "quiet (Http_request (Delete_lead c l)) = False"
| "quiet (Http_request ep) = True"
| "quiet (Backoff_sleep n) = True"
| "quiet (Log m) = True"
| "quiet (Report_written rows) = True"
| "quiet e = False"

definition example_campaign :: campaign where
  "example_campaign = \<lparr> c_id = Some 1, c_name = ''campaign'', c_status = ''PAUSED'',
     c_client_id = Some 5, c_created_at = Some 0, c_updated_at = Some 0 \<rparr>"

definition forty_days :: int where
  "forty_days = 40 * day_us"

subsection \<open>The steps of a run\<close>

text \<open>The events of \<^verbatim>\<open>send_email\<close> after the attempt has begun.\<close>

fun is_campaign_skipped :: "event \<Rightarrow> bool" where
  "is_campaign_skipped (Log (Campaign_skipped cid)) = True"
| "is_campaign_skipped e = False"

fun mail_event :: "event \<Rightarrow> bool" where
  "mail_event (Email_dispatched subject attached) = True"
| "mail_event (Log m) = True"
| "mail_event e = False"

fun is_backup_written :: "event \<Rightarrow> bool" where
  "is_backup_written (Backup_written df) = True"
| "is_backup_written e = False"

text \<open>The step at which each of the four exceptions of \<^verbatim>\<open>run_full_process\<close> is raised.\<close>

fun halting_step :: "error \<Rightarrow> nat" where
  "halting_step No_campaigns_retrieved = 1"
| "halting_step No_campaigns_match = 2"
| "halting_step No_campaigns_selected = 3"
| "halting_step No_leads_for_backup = 4"
| "halting_step e = 6"

text \<open>
  The events of the steps up to step \<open>k\<close>, the writing of the backup and the deletion
  apart: marks of steps up to \<open>k\<close> and quiet events.
\<close>

fun early :: "nat \<Rightarrow> event \<Rightarrow> bool" where
  "early k (Step n) = (n \<le> k)"
| "early k e = quiet e"

text \<open>The events after the backup was written: of the deletion, of the mails, marks of steps.\<close>

fun late :: "backup_row list \<Rightarrow> event \<Rightarrow> bool" where
  "late df (Step n) = True"
| "late df (Email_attempt subject attachments) = True"
| "late df (Email_dispatched subject attached) = True"
| "late df e = deletion_event df e"

subsection \<open>Concrete environments\<close>

definition campaigns_response :: "campaign list \<Rightarrow> response" where
  "campaigns_response cs = \<lparr> status_code = 200, csv_content_type = False, content = Json_campaigns cs \<rparr>"

definition export_response :: "csv_file \<Rightarrow> response" where
  "export_response f = \<lparr> status_code = 200, csv_content_type = True, content = Csv_body f \<rparr>"

text \<open>
  A service that lists one campaign, exports one lead with no reply for it, twice, and
  answers 200 to the delete call.
\<close>

definition example_service :: remote where
  "example_service n =
     (if n = 0 then Reply (campaigns_response [example_campaign])
      else if n = 3 then Reply ok_response
      else Reply (export_response (Table True [\<lparr>lead_id = Some 42, reply_count = Number 0\<rparr>])))"

definition example_env :: "remote \<Rightarrow> environment" where
  "example_env rem = \<lparr> remote_service = rem, local_disk = (\<lambda>n. True), clock_now = forty_days,
     backup_write_ok = True,
     mail = example_mail_env, api_key = ''key'', sender_email = ''sender@example.org'',
     app_password = ''password'', recipient_emails = ''recipient@example.org'' \<rparr>"

text \<open>
  Another sort that meets the same contract: descending, equal counts in the reverse
  of the order of the report.
\<close>

definition reversing_sort_desc :: "report_row list \<Rightarrow> report_row list" where
  "reversing_sort_desc rows = rev (sort_key r_no_reply_leads rows)"

text \<open>
  A service that answers every call with the list of one campaign, so that no export is
  a CSV; and a service whose export has a lead with no reply the first time and is no
  CSV afterwards.
\<close>

definition listing_service :: remote where
  "listing_service n = Reply (campaigns_response [example_campaign])"

definition vanishing_service :: remote where
  "vanishing_service n =
     (if n = 1 then Reply (export_response (Table True [\<lparr>lead_id = Some 42, reply_count = Number 0\<rparr>]))
      else Reply (campaigns_response [example_campaign]))"

text \<open>A service that answers 200 to the first call and 404 to all later ones.\<close>

definition once_ok_service :: remote where
  "once_ok_service n = (if n = 0 then Reply ok_response else Reply not_found)"

section \<open>Basic facts\<close>

lemma trace_emit [simp]: "trace (emit e s) = trace s @ [e]"
  by (simp add: emit_def)

lemma requests_emit [simp]: "requests (emit e s) = requests s"
  by (simp add: emit_def)

section \<open>The lead analyzer\<close>

text \<open>
  Claim C7, as stated, fails: a lead whose reply count is missing is not in the
  non-responding subset that \<^verbatim>\<open>analyze_campaign_leads\<close> returns, while the claim's
  classification puts it there. And in an export where one cell of the column is a text,
  the column is not read as numbers and a lead whose reply count reads 0 is not in the
  subset either.
\<close>

theorem missing_reply_count_not_selected:
  "fst (analyze_campaign_leads (Table True [\<lparr>lead_id = Some 1, reply_count = Empty\<rparr>]))
     \<noteq> filter claimed_non_responding [\<lparr>lead_id = Some 1, reply_count = Empty\<rparr>]
   \<and> analyze_campaign_leads (Table True
        [\<lparr>lead_id = Some 1, reply_count = Number 0\<rparr>, \<lparr>lead_id = Some 2, reply_count = Text ''abc''\<rparr>])
     = ([], 2, 0)"
  by (simp add: analyze_campaign_leads_def claimed_non_responding_def equals_zero_def)

text \<open>
  Claim C7, amended: for every export whose reply-count column is read as numbers (every
  cell a number or empty), a lead is in the returned non-responding subset iff its reply
  count is exactly zero; the subset keeps the order of the export, the total is the
  number of leads, the non-responding count is the size of the subset, and all other
  leads (a nonzero or a missing reply count) make up the difference of the two counts.
\<close>

theorem analyze_partitions_on_zero_reply_count:
  assumes "numeric_column df"
    and "analyze_campaign_leads (Table True df) = (no_reply_leads, total_leads, no_reply_count)"
  shows "(\<forall>l. l \<in> set no_reply_leads \<longleftrightarrow> l \<in> set df \<and> reply_count l = Number 0)
    \<and> subseq no_reply_leads df
    \<and> total_leads = length df
    \<and> no_reply_count = length no_reply_leads
    \<and> total_leads = no_reply_count + length (filter (\<lambda>l. reply_count l \<noteq> Number 0) df)"
proof -
  from assms(1) have z: "equals_zero df = (\<lambda>l. reply_count l = Number 0)"
    by (simp add: equals_zero_def numeric_column_def fun_eq_iff)
  from assms(2) have nr: "no_reply_leads = filter (\<lambda>l. reply_count l = Number 0) df"
    and t: "total_leads = length df" and c: "no_reply_count = length no_reply_leads"
    by (auto simp add: analyze_campaign_leads_def Let_def z)
  have "length df = length (filter (\<lambda>l. reply_count l = Number 0) df)
      + length (filter (\<lambda>l. reply_count l \<noteq> Number 0) df)"
    by (rule sum_length_filter_compl [symmetric])
  with nr t c show ?thesis by auto
qed

theorem analyze_partitions_on_zero_reply_count_witness:
  "numeric_column
      [\<lparr>lead_id = Some 1, reply_count = Number 0\<rparr>, \<lparr>lead_id = Some 2, reply_count = Number 3\<rparr>,
       \<lparr>lead_id = Some 3, reply_count = Empty\<rparr>]
   \<and> analyze_campaign_leads (Table True
      [\<lparr>lead_id = Some 1, reply_count = Number 0\<rparr>, \<lparr>lead_id = Some 2, reply_count = Number 3\<rparr>,
       \<lparr>lead_id = Some 3, reply_count = Empty\<rparr>])
     = ([\<lparr>lead_id = Some 1, reply_count = Number 0\<rparr>], 3, 1)
   \<and> (3::nat) = 1 + length (filter (\<lambda>l. reply_count l \<noteq> Number 0)
      [\<lparr>lead_id = Some 1, reply_count = Number 0\<rparr>, \<lparr>lead_id = Some 2, reply_count = Number 3\<rparr>,
       \<lparr>lead_id = Some 3, reply_count = Empty\<rparr>])"
proof -
  have num: "numeric_column
      [\<lparr>lead_id = Some 1, reply_count = Number 0\<rparr>, \<lparr>lead_id = Some 2, reply_count = Number 3\<rparr>,
       \<lparr>lead_id = Some 3, reply_count = Empty\<rparr>]"
    by (simp add: numeric_column_def)
  have run: "analyze_campaign_leads (Table True
      [\<lparr>lead_id = Some 1, reply_count = Number 0\<rparr>, \<lparr>lead_id = Some 2, reply_count = Number 3\<rparr>,
       \<lparr>lead_id = Some 3, reply_count = Empty\<rparr>])
     = ([\<lparr>lead_id = Some 1, reply_count = Number 0\<rparr>], 3, 1)"
    by (simp add: analyze_campaign_leads_def equals_zero_def)
  from analyze_partitions_on_zero_reply_count [OF num run] num run show ?thesis by blast
qed

section \<open>The campaign selector\<close>

text \<open>
  The loop, started below the target, returns the selection so far extended by a prefix
  of the lines with a positive count; every shorter prefix stays below the target.
\<close>

lemma select_loop_prefix:
  assumes "cum < T" and "select_loop T rows (sel, cum) = (sel', cum')"
  shows "\<exists>k\<le>length (filter (\<lambda>r. 0 < r_no_reply_leads r) rows).
           sel' = sel @ take k (filter (\<lambda>r. 0 < r_no_reply_leads r) rows)
         \<and> cum' = cum + count_sum (take k (filter (\<lambda>r. 0 < r_no_reply_leads r) rows))
         \<and> (\<forall>j<k. cum + count_sum (take j (filter (\<lambda>r. 0 < r_no_reply_leads r) rows)) < T)
         \<and> (k < length (filter (\<lambda>r. 0 < r_no_reply_leads r) rows) \<longrightarrow> T \<le> cum')"
  using assms
proof (induction rows arbitrary: sel cum)
  case Nil
  then show ?case by (simp add: count_sum_def)
next
  case (Cons row rows)
  let ?pool = "filter (\<lambda>r. 0 < r_no_reply_leads r) rows"
  show ?case
  proof (cases "r_no_reply_leads row \<le> 0")
    case True
    with Cons.prems have "select_loop T rows (sel, cum) = (sel', cum')" by simp
    from Cons.IH [OF Cons.prems(1) this] True show ?thesis by simp
  next
    case pos: False
    show ?thesis
    proof (cases "T \<le> cum + r_no_reply_leads row")
      case True
      with pos Cons.prems have "sel' = sel @ [row]" "cum' = cum + r_no_reply_leads row"
        by (simp_all add: Let_def)
      with pos True Cons.prems(1) show ?thesis
        by (intro exI [of _ 1]) (simp add: count_sum_def)
    next
      case False
      with pos Cons.prems have run: "select_loop T rows (sel @ [row], cum + r_no_reply_leads row) = (sel', cum')"
        by (simp add: Let_def)
      from False have "cum + r_no_reply_leads row < T" by simp
      from Cons.IH [OF this run] obtain k where k: "k \<le> length ?pool"
        "sel' = (sel @ [row]) @ take k ?pool"
        "cum' = cum + r_no_reply_leads row + count_sum (take k ?pool)"
        "\<forall>j<k. cum + r_no_reply_leads row + count_sum (take j ?pool) < T"
        "k < length ?pool \<longrightarrow> T \<le> cum'" by blast
      have "\<forall>j<Suc k. cum + count_sum (take j (row # ?pool)) < T"
      proof (intro allI impI)
        fix j assume "j < Suc k"
        then show "cum + count_sum (take j (row # ?pool)) < T"
          using k(4) Cons.prems(1) by (cases j) (auto simp: count_sum_def)
      qed
      with k pos show ?thesis
        by (intro exI [of _ "Suc k"]) (simp add: count_sum_def)
    qed
  qed
qed

lemma descending_counts:
  "descending rows \<longleftrightarrow> sorted (rev (map r_no_reply_leads rows))"
  by (simp add: descending_def sorted_wrt_rev sorted_wrt_map flip: rev_map)

lemma example_sorted:
  assumes "map r_no_reply_leads df = [50, 30, 20, 5]"
    and "mset (sort_values df) = mset df" and "descending (sort_values df)"
  shows "map r_no_reply_leads (sort_values df) = [50, 30, 20, 5]"
proof -
  let ?ys = "rev (map r_no_reply_leads (sort_values df))"
  have "mset ?ys = image_mset r_no_reply_leads (mset (sort_values df))" by simp
  also have "\<dots> = mset (map r_no_reply_leads df)" using assms(2) by simp
  finally have m: "mset ?ys = mset [50, 30, 20, 5::int]" using assms(1) by simp
  have "sorted ?ys" using assms(3) by (simp add: descending_counts)
  from properties_for_sort [OF m this] have "?ys = [5, 20, 30, 50]" by simp
  then have "rev ?ys = rev [5, 20, 30, 50]" by (rule arg_cong)
  then show ?thesis by simp
qed

lemma example_selected:
  assumes "map r_no_reply_leads rows = [50, 30, 20, 5]"
  shows "map r_no_reply_leads (fst (select_loop 70 rows ([], 0))) = [50, 30]"
proof -
  from assms obtain a b c d where "rows = [a, b, c, d]"
    "r_no_reply_leads a = 50" "r_no_reply_leads b = 30" by (auto simp: map_eq_Cons_conv)
  then show ?thesis by (simp add: Let_def)
qed

text \<open>
  Claim C4: for every report and every positive target, with \<^verbatim>\<open>sort_values\<close> returning
  the included lines in descending order of their no-reply counts, the selector takes
  the lines in that order, never takes a line with a non-positive count, and stops at
  the first point where the sum of the selected counts reaches the target, or when the
  lines are exhausted: the selection is the shortest prefix of the positive lines whose
  sum reaches the target, or all of them. For the counts 50, 30, 20, 5 and the target 70
  it selects the campaigns with the counts 50 and 30.
\<close>

theorem select_campaigns_greedy:
  assumes "0 < target_leads cfg"
    and "mset (sort_values (filter r_included (report_csv s))) = mset (filter r_included (report_csv s))"
    and "descending (sort_values (filter r_included (report_csv s)))"
  shows "(let pool = filter (\<lambda>row. 0 < r_no_reply_leads row) (sort_values (filter r_included (report_csv s)));
              selected = fst (select_campaigns_for_deletion sort_values cfg filtered_campaigns s)
          in (\<exists>k\<le>length pool. selected = take k pool
                \<and> (\<forall>j<k. count_sum (take j pool) < target_leads cfg)
                \<and> (k < length pool \<longrightarrow> target_leads cfg \<le> count_sum selected))
           \<and> descending selected
           \<and> (\<forall>row\<in>set selected. 0 < r_no_reply_leads row \<and> row \<in> set (report_csv s) \<and> r_included row)
           \<and> (target_leads cfg = 70
                \<and> map r_no_reply_leads (filter r_included (report_csv s)) = [50, 30, 20, 5]
              \<longrightarrow> map r_no_reply_leads selected = [50, 30]))"
proof -
  define df where "df = filter r_included (report_csv s)"
  define pool where "pool = filter (\<lambda>row. 0 < r_no_reply_leads row) (sort_values df)"
  define selected where "selected = fst (select_campaigns_for_deletion sort_values cfg filtered_campaigns s)"
  have sel: "selected = fst (select_loop (target_leads cfg) (sort_values df) ([], 0))"
    by (simp add: selected_def select_campaigns_for_deletion_def df_def Let_def split: prod.splits)
  obtain sel' cum' where run: "select_loop (target_leads cfg) (sort_values df) ([], 0) = (sel', cum')"
    by (cases "select_loop (target_leads cfg) (sort_values df) ([], 0)")
  from select_loop_prefix [OF assms(1) run] obtain k where k: "k \<le> length pool"
    "sel' = take k pool" "cum' = count_sum (take k pool)"
    "\<forall>j<k. count_sum (take j pool) < target_leads cfg"
    "k < length pool \<longrightarrow> target_leads cfg \<le> cum'"
    unfolding pool_def by auto
  from sel run have s': "selected = sel'" by simp
  have prefix: "\<exists>k\<le>length pool. selected = take k pool
                \<and> (\<forall>j<k. count_sum (take j pool) < target_leads cfg)
                \<and> (k < length pool \<longrightarrow> target_leads cfg \<le> count_sum selected)"
    using k s' by auto
  have "descending pool"
    using assms(3) unfolding pool_def descending_def df_def by (rule sorted_wrt_filter)
  then have desc: "descending selected"
    unfolding s' k(2) descending_def by (rule sorted_wrt_take)
  have "set selected \<subseteq> set pool" unfolding s' k(2) by (rule set_take_subset)
  moreover have "set (sort_values df) = set df"
    using assms(2) unfolding df_def by (rule mset_eq_setD)
  ultimately have pos: "\<forall>row\<in>set selected. 0 < r_no_reply_leads row \<and> row \<in> set (report_csv s) \<and> r_included row"
    unfolding pool_def df_def by auto
  have ex: "map r_no_reply_leads selected = [50, 30]"
    if "target_leads cfg = 70" "map r_no_reply_leads df = [50, 30, 20, 5]"
  proof -
    from example_sorted [OF that(2)] assms(2,3)
    have "map r_no_reply_leads (sort_values df) = [50, 30, 20, 5]" by (simp add: df_def)
    from example_selected [OF this] show ?thesis using sel that(1) by simp
  qed
  from ex have "target_leads cfg = 70 \<and> map r_no_reply_leads df = [50, 30, 20, 5]
      \<longrightarrow> map r_no_reply_leads selected = [50, 30]" by simp
  with prefix desc pos show ?thesis
    unfolding Let_def pool_def [symmetric] df_def [symmetric] selected_def [symmetric]
    by (intro conjI) assumption+
qed

lemma stable_sort_desc_mset: "mset (stable_sort_desc rows) = mset rows"
  by (simp add: stable_sort_desc_def)

lemma stable_sort_desc_descending: "descending (stable_sort_desc rows)"
proof -
  have "sorted (map (\<lambda>r. - r_no_reply_leads r) (stable_sort_desc rows))"
    by (simp add: stable_sort_desc_def)
  then show ?thesis
    by (simp add: descending_def sorted_map sorted_wrt_iff_nth_less)
qed

text \<open>The hypotheses of C4 hold for the example of the specification.\<close>

theorem select_campaigns_greedy_witness:
  "0 < target_leads (script_config\<lparr>target_leads := 70\<rparr>)
   \<and> map r_no_reply_leads (fst (select_campaigns_for_deletion stable_sort_desc
        (script_config\<lparr>target_leads := 70\<rparr>) [] (initial_state\<lparr>report_csv := example_report\<rparr>))) = [50, 30]"
  using select_campaigns_greedy [of "script_config\<lparr>target_leads := 70\<rparr>" stable_sort_desc
      "initial_state\<lparr>report_csv := example_report\<rparr>" "[]",
      OF _ stable_sort_desc_mset stable_sort_desc_descending]
  by (simp add: Let_def example_report_def example_row_def initial_state_def)

subsection \<open>Campaigns with equal counts\<close>

text \<open>
  The order in which campaigns with equal counts are taken is the order in which
  \<^verbatim>\<open>sort_values\<close> returns them. The script asks for no kind of sort, and pandas' default
  is not bound to keep the order of equal keys. With a stable sort, equal counts stay
  in the order of the report; a sort that returns them in the reverse order meets
  the same contract, and selects another campaign.
\<close>

lemma stable_sort_desc_ties:
  "filter (\<lambda>row. r_no_reply_leads row = k) (stable_sort_desc rows)
     = filter (\<lambda>row. r_no_reply_leads row = k) rows"
proof -
  have "filter (\<lambda>row. - r_no_reply_leads row = - k) (sort_key (\<lambda>r. - r_no_reply_leads r) rows)
      = filter (\<lambda>row. - r_no_reply_leads row = - k) rows"
    by (rule sort_key_stable)
  then show ?thesis by (simp add: stable_sort_desc_def)
qed

lemma reversing_sort_desc_mset: "mset (reversing_sort_desc rows) = mset rows"
  by (simp add: reversing_sort_desc_def)

lemma reversing_sort_desc_descending: "descending (reversing_sort_desc rows)"
  by (simp add: descending_counts reversing_sort_desc_def rev_map)

lemma selection_depends_on_ties:
  "map r_campaign_id (fst (select_campaigns_for_deletion stable_sort_desc (script_config\<lparr>target_leads := 10\<rparr>) []
       (initial_state\<lparr>report_csv := [example_row 1 10, example_row 2 10]\<rparr>))) = [Some 1]"
  "map r_campaign_id (fst (select_campaigns_for_deletion reversing_sort_desc (script_config\<lparr>target_leads := 10\<rparr>) []
       (initial_state\<lparr>report_csv := [example_row 1 10, example_row 2 10]\<rparr>))) = [Some 2]"
  by (simp_all add: select_campaigns_for_deletion_def stable_sort_desc_def reversing_sort_desc_def
      example_row_def initial_state_def Let_def)

section \<open>Requests and the deletion of leads\<close>

lemma appends_refl [simp]: "appends P s s"
  by (simp add: appends_def)

lemma appends_emit: "P e \<Longrightarrow> appends P s s' \<Longrightarrow> appends P s (emit e s')"
  by (auto simp: appends_def)

lemma appends_trans: "appends P s s1 \<Longrightarrow> appends P s1 s2 \<Longrightarrow> appends P s s2"
  by (auto simp: appends_def)

lemma appends_mono: "appends P s s' \<Longrightarrow> (\<And>e. P e \<Longrightarrow> Q e) \<Longrightarrow> appends Q s s'"
  by (auto simp: appends_def list_all_iff)


lemma send_request_from_appends:
  "send_request_from a k rem ep s = (r, s') \<Longrightarrow> appends (request_event ep) s s'"
proof (induction k arbitrary: a s)
  case 0
  then show ?case by simp
next
  case (Suc k)
  let ?s1 = "(emit (Http_request ep) s)\<lparr>requests := Suc (requests s)\<rparr>"
  let ?s2 = "emit (Backoff_sleep (BACKOFF_FACTOR ^ a)) (emit (Log (Request_failed ep a)) ?s1)"
  have a1: "appends (request_event ep) s ?s1"
    by (simp add: appends_def)
  have a2: "appends (request_event ep) s ?s2"
    by (simp add: appends_def)
  show ?case
  proof (cases "\<exists>resp. rem (requests s) = Reply resp \<and> \<not> raises_for_status resp")
    case True
    with Suc.prems have "s' = ?s1" by (auto simp: Let_def)
    with a1 show ?thesis by simp
  next
    case False
    with Suc.prems have "send_request_from (Suc a) k rem ep ?s2 = (r, s')"
      by (auto simp: Let_def split: outcome.splits if_splits)
    from appends_trans [OF a2 Suc.IH [OF this]] show ?thesis .
  qed
qed

lemma send_request_appends:
  "send_request rem ep s = (r, s') \<Longrightarrow> appends (request_event ep) s s'"
  unfolding send_request_def by (rule send_request_from_appends)

text \<open>The first attempt of \<^verbatim>\<open>send_request\<close>, for the evaluation of concrete runs.\<close>

lemma send_request_unfold:
  "send_request rem ep s =
     (case rem (requests s) of
        Reply r \<Rightarrow>
          if raises_for_status r
          then send_request_from (Suc (Suc 0)) 4 rem ep
                 (emit (Backoff_sleep (BACKOFF_FACTOR ^ Suc 0))
                    (emit (Log (Request_failed ep (Suc 0))) ((emit (Http_request ep) s)\<lparr>requests := Suc (requests s)\<rparr>)))
          else (Some r, (emit (Http_request ep) s)\<lparr>requests := Suc (requests s)\<rparr>)
      | No_reply \<Rightarrow>
          send_request_from (Suc (Suc 0)) 4 rem ep
            (emit (Backoff_sleep (BACKOFF_FACTOR ^ Suc 0))
               (emit (Log (Request_failed ep (Suc 0))) ((emit (Http_request ep) s)\<lparr>requests := Suc (requests s)\<rparr>))))"
proof -
  have "send_request rem ep s = send_request_from (Suc 0) (Suc 4) rem ep s"
    by (simp add: send_request_def MAX_RETRIES_def)
  then show ?thesis
    by (simp only: send_request_from.simps Let_def)
qed

text \<open>A response that \<^verbatim>\<open>send_request\<close> returns has passed \<^verbatim>\<open>raise_for_status\<close>.\<close>

lemma send_request_from_status:
  "send_request_from a k rem ep s = (Some r, s') \<Longrightarrow> \<not> raises_for_status r"
  by (induction k arbitrary: a s) (auto simp: Let_def split: outcome.splits if_splits)

lemma send_request_status:
  "send_request rem ep s = (Some r, s') \<Longrightarrow> \<not> raises_for_status r"
  unfolding send_request_def by (rule send_request_from_status)

text \<open>A service that answers every call with a status from 400 to 599 gets no response through.\<close>

lemma send_request_from_refused:
  assumes "\<And>n. \<exists>r. rem n = Reply r \<and> raises_for_status r"
  shows "fst (send_request_from a k rem ep s) = None"
proof (induction k arbitrary: a s)
  case 0
  then show ?case by simp
next
  case (Suc k)
  from assms obtain r where "rem (requests s) = Reply r" "raises_for_status r" by blast
  then show ?case using Suc.IH by (simp add: Let_def)
qed

lemma send_request_from_refused_after:
  assumes "\<And>n. requests s \<le> n \<Longrightarrow> \<exists>r. rem n = Reply r \<and> raises_for_status r"
  shows "fst (send_request_from a k rem ep s) = None"
  using assms
proof (induction k arbitrary: a s)
  case 0
  then show ?case by simp
next
  case (Suc k)
  from Suc.prems [of "requests s"] obtain r where r: "rem (requests s) = Reply r" "raises_for_status r"
    by auto
  let ?s2 = "emit (Backoff_sleep (BACKOFF_FACTOR ^ a))
      (emit (Log (Request_failed ep a)) ((emit (Http_request ep) s)\<lparr>requests := Suc (requests s)\<rparr>))"
  have "fst (send_request_from (Suc a) k rem ep ?s2) = None"
    by (rule Suc.IH) (simp add: Suc.prems)
  with r show ?case by (simp add: Let_def)
qed

lemma delete_single_lead_appends:
  assumes "delete_single_lead rem c l s = (ok, s')"
  shows "appends (delete_call_event c l) s s'"
proof -
  obtain r s1 where sr: "send_request rem (Delete_lead c l) s = (r, s1)"
    by (cases "send_request rem (Delete_lead c l) s")
  from send_request_appends [OF sr] have "appends (delete_call_event c l) s s1"
    by (rule appends_mono) (simp add: delete_call_event_def)
  moreover from assms sr have "s' = s1 \<or> s' = emit (Log (Lead_already_deleted l)) s1
      \<or> s' = emit (Log (Lead_delete_failed c l)) s1"
    by (auto simp: delete_single_lead_def split: option.splits if_splits)
  ultimately show ?thesis
    by (auto intro: appends_emit simp: delete_call_event_def)
qed

text \<open>
  The branch of \<^verbatim>\<open>delete_single_lead\<close> for status 404 is never taken: a deletion
  succeeds only when a response with status 200 comes through.
\<close>

lemma delete_single_lead_iff:
  "fst (delete_single_lead rem c l s) \<longleftrightarrow>
     (\<exists>r. fst (send_request rem (Delete_lead c l) s) = Some r \<and> status_code r = 200)"
  by (auto simp: delete_single_lead_def truthy_def raises_for_status_def
      split: prod.splits option.splits dest: send_request_status)

text \<open>Every line of the backup is counted once, as a success or as a failure.\<close>

lemma delete_rows_counts:
  "delete_rows rem n idx rows (a, b) s = ((a', b'), s') \<Longrightarrow> a' + b' = a + b + length rows"
proof (induction rows arbitrary: idx a b s)
  case Nil
  then show ?case by simp
next
  case (Cons row rows)
  then show ?case
    by (auto simp: Let_def split: option.splits prod.splits if_splits)
qed

lemma delete_leads_counts:
  "backup_df \<noteq> [] \<Longrightarrow> leads_deleted_success (delete_leads rem backup_df s)
     + leads_deleted_failed (delete_leads rem backup_df s) = length backup_df"
  by (auto simp: delete_leads_def split: prod.splits dest: delete_rows_counts)

lemma not_found_raises: "raises_for_status not_found"
  by (simp add: not_found_def raises_for_status_def)

lemma delete_single_lead_not_found:
  "fst (delete_single_lead (\<lambda>n. Reply not_found) c l s) = False"
proof -
  have "fst (send_request (\<lambda>n. Reply not_found) (Delete_lead c l) s) = None"
    unfolding send_request_def by (rule send_request_from_refused) (simp add: not_found_raises)
  then show ?thesis by (simp add: delete_single_lead_iff)
qed

lemma ok_response_passes: "\<not> raises_for_status ok_response" "truthy ok_response" "status_code ok_response = 200"
  by (simp_all add: ok_response_def raises_for_status_def truthy_def)

lemma once_ok_service_later:
  assumes "1 \<le> requests s"
  shows "fst (delete_single_lead once_ok_service c l s) = False"
proof -
  have "fst (send_request once_ok_service (Delete_lead c l) s) = None"
    unfolding send_request_def
  proof (rule send_request_from_refused_after)
    fix n assume "requests s \<le> n"
    with assms have "n \<noteq> 0" by simp
    then show "\<exists>r. once_ok_service n = Reply r \<and> raises_for_status r"
      by (simp add: once_ok_service_def not_found_raises)
  qed
  then show ?thesis by (simp add: delete_single_lead_iff)
qed

lemma once_ok_service_first:
  "delete_single_lead once_ok_service c l initial_state
     = (True, (emit (Http_request (Delete_lead c l)) initial_state)\<lparr>requests := Suc 0\<rparr>)"
  by (simp add: delete_single_lead_def send_request_unfold once_ok_service_def ok_response_passes
      initial_state_def)

text \<open>
  Claim C1, at a service that answers the delete call with status 404: \<^verbatim>\<open>send_request\<close>
  raises on that status at each of its attempts and returns nothing, so the lead is
  counted as failed, where the claim (and the branch for 404 in \<^verbatim>\<open>delete_single_lead\<close>)
  count it as a success. With a backup of two leads, the first call answered 200 and the
  later ones 404, the counts are one success and one failure, not two successes.
\<close>

theorem not_found_counted_as_failure:
  "fst (delete_single_lead (\<lambda>n. Reply not_found) 7 42 initial_state) = False
   \<and> leads_deleted_success (delete_leads (\<lambda>n. Reply not_found) [example_lead 42] initial_state) = 0
   \<and> leads_deleted_failed (delete_leads (\<lambda>n. Reply not_found) [example_lead 42] initial_state) = 1
   \<and> leads_deleted_success (delete_leads once_ok_service [example_lead 1, example_lead 2] initial_state) = 1
   \<and> leads_deleted_failed (delete_leads once_ok_service [example_lead 1, example_lead 2] initial_state) = 1"
  by (simp add: delete_leads_def example_lead_def case_prod_beta Let_def delete_single_lead_not_found
      once_ok_service_first once_ok_service_later)

section \<open>The delay and the progress lines of the deletion\<close>











section \<open>send_email\<close>

lemma attach_files_ok:
  assumes "\<And>p. p \<in> set paths \<Longrightarrow> isfile env p \<Longrightarrow> \<not> read_fails env p"
  shows "\<exists>s'. attach_files env paths attached s = (Inr (attached @ filter (isfile env) paths), s')
      \<and> trace s' = trace s @ map (\<lambda>p. Log (Attachment_not_found p)) (filter (\<lambda>p. \<not> isfile env p) paths)"
  using assms
proof (induction paths arbitrary: attached s)
  case Nil
  then show ?case by simp
next
  case (Cons p paths)
  show ?case
  proof (cases "isfile env p")
    case True
    with Cons.prems have "\<not> read_fails env p" by simp
    with True Cons.IH [of "attached @ [p]" s] Cons.prems show ?thesis by simp
  next
    case False
    with Cons.IH [of attached "emit (Log (Attachment_not_found p)) s"] Cons.prems
    show ?thesis by auto
  qed
qed

lemma attach_files_error:
  assumes "p \<in> set paths" "isfile env p" "read_fails env p"
  shows "\<exists>q s'. attach_files env paths attached s = (Inl (Attachment_read_error q), s')"
  using assms
proof (induction paths arbitrary: attached s)
  case Nil
  then show ?case by simp
next
  case (Cons q paths)
  then show ?case by (cases "isfile env q"; cases "read_fails env q") auto
qed

text \<open>
  Claim C10: for every subject, body and list of attachments, and whatever composing the
  message, reading the files and the SMTP session do, \<^verbatim>\<open>send_email\<close> raises nothing: it
  returns \<^verbatim>\<open>True\<close> when the message was composed, every attachment that is a file
  was read and the SMTP session went through, and \<^verbatim>\<open>False\<close> otherwise. A path that
  is not a file does not make it fail: it is logged with a warning and the message is
  dispatched with the attachments that are files.
\<close>

theorem send_email_never_raises:
  "\<exists>sent. fst (send_email env subject body_text attachments s) = Inr sent
     \<and> (sent \<longleftrightarrow> \<not> compose_fails env
                  \<and> (\<forall>p\<in>set attachments. isfile env p \<longrightarrow> \<not> read_fails env p)
                  \<and> \<not> smtp_fails env)
     \<and> (sent \<longrightarrow>
           (\<forall>p\<in>set attachments. \<not> isfile env p \<longrightarrow>
               Log (Attachment_not_found p) \<in> set (trace (snd (send_email env subject body_text attachments s))))
           \<and> Email_dispatched subject (filter (isfile env) attachments)
               \<in> set (trace (snd (send_email env subject body_text attachments s))))"
proof (cases "\<forall>p\<in>set attachments. isfile env p \<longrightarrow> \<not> read_fails env p")
  case True
  let ?s0 = "emit (Email_attempt subject attachments) s"
  from True attach_files_ok [of attachments env "[]" ?s0] obtain s1 where
    a: "attach_files env attachments [] ?s0 = (Inr (filter (isfile env) attachments), s1)"
       "trace s1 = trace ?s0 @ map (\<lambda>p. Log (Attachment_not_found p)) (filter (\<lambda>p. \<not> isfile env p) attachments)"
    by auto
  show ?thesis
  proof (cases "compose_fails env \<or> smtp_fails env")
    case True
    with a show ?thesis
      by (auto simp: send_email_def send_email_try_def)
  next
    case False
    with a \<open>\<forall>p\<in>set attachments. isfile env p \<longrightarrow> \<not> read_fails env p\<close> show ?thesis
      by (auto simp: send_email_def send_email_try_def)
  qed
next
  case False
  then obtain p where "p \<in> set attachments" "isfile env p" "read_fails env p" by blast
  from attach_files_error [OF this] obtain q s1 where
    "attach_files env attachments [] (emit (Email_attempt subject attachments) s) = (Inl (Attachment_read_error q), s1)"
    by blast
  with False show ?thesis
    by (auto simp: send_email_def send_email_try_def)
qed

text \<open>
  With the log file present and an attachment missing, the mail goes out with the log
  alone and a warning; when the SMTP session fails the result is \<^verbatim>\<open>False\<close>.
\<close>

theorem send_email_never_raises_witness:
  "fst (send_email example_mail_env ''subject'' ''body'' [log_filename, ''missing.csv''] initial_state) = Inr True
   \<and> trace (snd (send_email example_mail_env ''subject'' ''body'' [log_filename, ''missing.csv''] initial_state))
      = [Email_attempt ''subject'' [log_filename, ''missing.csv''], Log (Attachment_not_found ''missing.csv''),
         Email_dispatched ''subject'' [log_filename], Log Email_ok]
   \<and> fst (send_email (example_mail_env\<lparr>smtp_fails := True\<rparr>) ''subject'' ''body'' [log_filename, ''missing.csv''] initial_state) = Inr False"
proof -
  have 1: "\<forall>p\<in>set [log_filename, ''missing.csv'']. isfile example_mail_env p \<longrightarrow> \<not> read_fails example_mail_env p"
    by (simp add: example_mail_env_def)
  have 2: "\<not> compose_fails example_mail_env" "\<not> smtp_fails example_mail_env"
    "smtp_fails (example_mail_env\<lparr>smtp_fails := True\<rparr>)"
    by (simp_all add: example_mail_env_def)
  have 3: "trace (snd (send_email example_mail_env ''subject'' ''body'' [log_filename, ''missing.csv''] initial_state))
      = [Email_attempt ''subject'' [log_filename, ''missing.csv''], Log (Attachment_not_found ''missing.csv''),
         Email_dispatched ''subject'' [log_filename], Log Email_ok]"
    by (simp add: send_email_def send_email_try_def example_mail_env_def log_filename_def initial_state_def)
  from send_email_never_raises [of example_mail_env "''subject''" "''body''" "[log_filename, ''missing.csv'']" initial_state]
    send_email_never_raises [of "example_mail_env\<lparr>smtp_fails := True\<rparr>" "''subject''" "''body''" "[log_filename, ''missing.csv'']" initial_state]
    1 2 3
  show ?thesis by auto
qed

section \<open>The campaign filter\<close>

text \<open>Events of an export or of the fetching: quiet, and no line about a skipped campaign.\<close>

lemma export_request_calm:
  "request_event (Leads_export cid) e \<Longrightarrow> quiet e \<and> \<not> is_campaign_skipped e"
  by (erule request_event.elims) auto

lemma trace_file_op [simp]: "trace (file_op s) = trace s"
  by (simp add: file_op_def)

lemma file_ops_emit [simp]: "file_ops (emit e s) = file_ops s"
  by (simp add: emit_def)

lemma appends_file_op: "appends P s s' \<Longrightarrow> appends P s (file_op s')"
  by (simp add: appends_def)

lemma export_leads_csv_calm:
  assumes "export_leads_csv rem dsk cid s = (r, s')"
  shows "appends (\<lambda>e. quiet e \<and> \<not> is_campaign_skipped e) s s'"
proof (cases "dsk (file_ops s)")
  case False
  with assms have "s' = file_op s" by (simp add: export_leads_csv_def)
  then show ?thesis by (simp add: appends_def)
next
  case True
  obtain resp s1 where sr: "send_request rem (Leads_export cid) (file_op s) = (resp, s1)"
    by (cases "send_request rem (Leads_export cid) (file_op s)")
  from send_request_appends [OF sr] have "appends (\<lambda>e. quiet e \<and> \<not> is_campaign_skipped e) (file_op s) s1"
    by (rule appends_mono) (rule export_request_calm)
  then have a: "appends (\<lambda>e. quiet e \<and> \<not> is_campaign_skipped e) s s1"
    by (simp add: appends_def)
  from assms sr True have "s' = file_op s1 \<or> s' = emit (Log (Export_failed cid)) s1"
    by (auto simp: export_leads_csv_def split: option.splits if_splits)
  with a show ?thesis by (auto intro: appends_emit appends_file_op)
qed

lemma export_leads_csv_appends:
  assumes "export_leads_csv rem dsk cid s = (r, s')"
  shows "appends quiet s s'"
  using export_leads_csv_calm [OF assms] by (rule appends_mono) simp

lemma export_and_count_calm:
  assumes "export_and_count rem dsk cid s = (r, s')"
  shows "appends (\<lambda>e. quiet e \<and> \<not> is_campaign_skipped e) s s'"
proof -
  obtain r1 s1 where ex: "export_leads_csv rem dsk cid s = (r1, s1)"
    by (cases "export_leads_csv rem dsk cid s")
  with assms have "s' = s1"
    by (auto simp: export_and_count_def split: sum.splits option.splits prod.splits)
  with export_leads_csv_calm [OF ex] show ?thesis by simp
qed

text \<open>When no file operation fails, the export and the counting raise nothing.\<close>

lemma export_and_count_ok:
  assumes "\<And>n. dsk n" and "export_and_count rem dsk cid s = (r, s')"
  shows "\<exists>counts. r = Inr counts"
  using assms
  by (auto simp: export_and_count_def export_leads_csv_def
      split: sum.splits option.splits prod.splits if_splits)

lemma fetch_all_campaigns_appends:
  assumes "fetch_all_campaigns rem s = (r, s')"
  shows "appends quiet s s'"
proof -
  obtain resp s1 where sr: "send_request rem List_campaigns s = (resp, s1)"
    by (cases "send_request rem List_campaigns s")
  have q: "\<And>e. request_event List_campaigns e \<Longrightarrow> quiet e"
    by (erule request_event.elims) auto
  from send_request_appends [OF sr] have "appends quiet s s1"
    by (rule appends_mono) (rule q)
  moreover from assms sr have "s' = s1 \<or> s' = emit (Log Campaigns_not_retrieved) s1"
    by (auto simp: fetch_all_campaigns_def split: option.splits if_splits body.splits)
  ultimately show ?thesis by (auto intro: appends_emit)
qed

text \<open>
  One turn of the loop of the filter. A campaign with a timestamp that is not parsed is
  logged. Any other campaign is appended to the filtered list when the rule includes it;
  then either its line is written, or something raised (which a disk that never fails
  excludes) and the campaign is logged.
\<close>

lemma filter_loop_skip:
  "\<not> timestamps_parse c \<Longrightarrow>
     filter_loop cfg rem dsk cutoff (c # cs) (w, f) s
       = filter_loop cfg rem dsk cutoff cs (w, f) (emit (Log (Campaign_skipped (c_id c))) s)"
  by (auto simp: timestamps_parse_def split: option.splits)

lemma filter_loop_row:
  assumes "timestamps_parse c"
  shows "\<exists>s1. appends (\<lambda>e. quiet e \<and> \<not> is_campaign_skipped e) s s1
     \<and> ((\<exists>row. filter_loop cfg rem dsk cutoff (c # cs) (w, f) s
                  = filter_loop cfg rem dsk cutoff cs
                      (w @ [row], if claimed_inclusion cfg cutoff c then f @ [c] else f) s1
               \<and> row_of_campaign c row \<and> r_included row = claimed_inclusion cfg cutoff c
               \<and> row_decision cfg cutoff row = claimed_inclusion cfg cutoff c)
        \<or> (filter_loop cfg rem dsk cutoff (c # cs) (w, f) s
              = filter_loop cfg rem dsk cutoff cs
                  (w, if claimed_inclusion cfg cutoff c then f @ [c] else f)
                  (emit (Log (Campaign_skipped (c_id c))) s1)
            \<and> \<not> (\<forall>n. dsk n)))"
proof -
  from assms obtain t u where tu: "c_created_at c = Some t" "c_updated_at c = Some u"
    by (auto simp: timestamps_parse_def)
  have inc: "include_campaign cfg cutoff c t = claimed_inclusion cfg cutoff c"
    using tu by (auto simp: include_campaign_def claimed_inclusion_def)
  define f' where "f' = (if claimed_inclusion cfg cutoff c then f @ [c] else f)"
  obtain r s1 where ec: "(if claimed_inclusion cfg cutoff c then export_and_count rem dsk (c_id c) s
      else (Inr (0, 0), s)) = (r, s1)"
    by (cases "if claimed_inclusion cfg cutoff c then export_and_count rem dsk (c_id c) s
      else (Inr (0, 0), s)")
  have calm: "appends (\<lambda>e. quiet e \<and> \<not> is_campaign_skipped e) s s1"
  proof (cases "claimed_inclusion cfg cutoff c")
    case True
    with ec have "export_and_count rem dsk (c_id c) s = (r, s1)" by simp
    then show ?thesis by (rule export_and_count_calm)
  next
    case False
    with ec show ?thesis by simp
  qed
  have ok: "\<exists>counts. r = Inr counts" if "\<forall>n. dsk n"
  proof (cases "claimed_inclusion cfg cutoff c")
    case True
    with ec have "export_and_count rem dsk (c_id c) s = (r, s1)" by simp
    with that show ?thesis by (auto dest: export_and_count_ok [rotated])
  next
    case False
    with ec show ?thesis by auto
  qed
  show ?thesis
  proof (cases r)
    case (Inl e)
    with tu inc ec have "filter_loop cfg rem dsk cutoff (c # cs) (w, f) s
        = filter_loop cfg rem dsk cutoff cs (w, f') (emit (Log (Campaign_skipped (c_id c))) s1)"
      by (simp add: f'_def)
    moreover from Inl ok have "\<not> (\<forall>n. dsk n)" by auto
    ultimately show ?thesis using calm unfolding f'_def by blast
  next
    case (Inr counts)
    show ?thesis
    proof (cases "dsk (file_ops s1)")
      case False
      with Inr tu inc ec have "filter_loop cfg rem dsk cutoff (c # cs) (w, f) s
          = filter_loop cfg rem dsk cutoff cs (w, f') (emit (Log (Campaign_skipped (c_id c))) (file_op s1))"
        by (simp add: f'_def split: prod.splits)
      moreover from False have "\<not> (\<forall>n. dsk n)" by auto
      moreover from calm have "appends (\<lambda>e. quiet e \<and> \<not> is_campaign_skipped e) s (file_op s1)"
        by (rule appends_file_op)
      ultimately show ?thesis unfolding f'_def by blast
    next
      case True
      let ?row = "\<lparr> r_campaign_id = c_id c, r_campaign_name = c_name c,
                       r_status = c_status c, r_client_id = c_client_id c,
                       r_created = t, r_updated = u, r_included = claimed_inclusion cfg cutoff c,
                       r_total_leads = fst counts, r_no_reply_leads = snd counts \<rparr>"
      from True Inr tu inc ec have "filter_loop cfg rem dsk cutoff (c # cs) (w, f) s
          = filter_loop cfg rem dsk cutoff cs (w @ [?row], f') (file_op s1)"
        by (simp add: f'_def split: prod.splits)
      moreover have "row_of_campaign c ?row" using tu by (simp add: row_of_campaign_def)
      moreover have "row_decision cfg cutoff ?row = claimed_inclusion cfg cutoff c"
        using tu by (simp add: row_decision_def claimed_inclusion_def)
      moreover from calm have "appends (\<lambda>e. quiet e \<and> \<not> is_campaign_skipped e) s (file_op s1)"
        by (rule appends_file_op)
      ultimately show ?thesis unfolding f'_def
        by (intro exI [of _ "file_op s1"]) auto
    qed
  qed
qed

lemma calm_filter:
  "list_all (\<lambda>e. quiet e \<and> \<not> is_campaign_skipped e) evs \<Longrightarrow> filter is_campaign_skipped evs = []"
  by (induction evs) auto

lemma filter_loop_result:
  assumes "filter_loop cfg rem dsk cutoff cs (w, f) s = ((w', f'), s')"
  shows "f' = f @ filter (\<lambda>c. timestamps_parse c \<and> claimed_inclusion cfg cutoff c) cs
    \<and> (\<exists>kept new evs. w' = w @ new \<and> trace s' = trace s @ evs
          \<and> subseq kept (filter timestamps_parse cs)
          \<and> list_all2 row_of_campaign kept new
          \<and> list_all2 (\<lambda>c row. r_included row = claimed_inclusion cfg cutoff c) kept new
          \<and> list_all (\<lambda>row. r_included row = row_decision cfg cutoff row) new
          \<and> ((\<forall>n. dsk n) \<longrightarrow> kept = filter timestamps_parse cs)
          \<and> list_all quiet evs
          \<and> length (filter is_campaign_skipped evs) + length new = length cs
          \<and> (\<forall>c\<in>set cs. \<not> timestamps_parse c \<longrightarrow> Log (Campaign_skipped (c_id c)) \<in> set evs))"
  using assms
proof (induction cs arbitrary: w f s)
  case Nil
  then show ?case by simp
next
  case (Cons c cs)
  let ?P = "\<lambda>c. timestamps_parse c \<and> claimed_inclusion cfg cutoff c"
  show ?case
  proof (cases "timestamps_parse c")
    case False
    let ?s1 = "emit (Log (Campaign_skipped (c_id c))) s"
    from Cons.prems have run: "filter_loop cfg rem dsk cutoff cs (w, f) ?s1 = ((w', f'), s')"
      unfolding filter_loop_skip [OF False] .
    from Cons.IH [OF run] obtain kept new evs where ih:
      "f' = f @ filter ?P cs" "w' = w @ new" "trace s' = trace ?s1 @ evs"
      "subseq kept (filter timestamps_parse cs)" "list_all2 row_of_campaign kept new"
      "list_all2 (\<lambda>c row. r_included row = claimed_inclusion cfg cutoff c) kept new"
      "list_all (\<lambda>row. r_included row = row_decision cfg cutoff row) new"
      "(\<forall>n. dsk n) \<longrightarrow> kept = filter timestamps_parse cs"
      "list_all quiet evs"
      "length (filter is_campaign_skipped evs) + length new = length cs"
      "\<forall>c\<in>set cs. \<not> timestamps_parse c \<longrightarrow> Log (Campaign_skipped (c_id c)) \<in> set evs"
      by blast
    have "f' = f @ filter ?P (c # cs)" using ih(1) False by simp
    moreover have "\<exists>kept new evs. w' = w @ new \<and> trace s' = trace s @ evs
          \<and> subseq kept (filter timestamps_parse (c # cs))
          \<and> list_all2 row_of_campaign kept new
          \<and> list_all2 (\<lambda>c row. r_included row = claimed_inclusion cfg cutoff c) kept new
          \<and> list_all (\<lambda>row. r_included row = row_decision cfg cutoff row) new
          \<and> ((\<forall>n. dsk n) \<longrightarrow> kept = filter timestamps_parse (c # cs))
          \<and> list_all quiet evs
          \<and> length (filter is_campaign_skipped evs) + length new = length (c # cs)
          \<and> (\<forall>c\<in>set (c # cs). \<not> timestamps_parse c \<longrightarrow> Log (Campaign_skipped (c_id c)) \<in> set evs)"
      using ih(2-11) False
      by (intro exI [of _ kept] exI [of _ new] exI [of _ "Log (Campaign_skipped (c_id c)) # evs"]) simp
    ultimately show ?thesis by blast
  next
    case True
    define f1 where "f1 = (if claimed_inclusion cfg cutoff c then f @ [c] else f)"
    from filter_loop_row [OF True, of s cfg rem dsk cutoff cs w f] obtain s1 where
      calm: "appends (\<lambda>e. quiet e \<and> \<not> is_campaign_skipped e) s s1"
      and alt: "(\<exists>row. filter_loop cfg rem dsk cutoff (c # cs) (w, f) s
                  = filter_loop cfg rem dsk cutoff cs (w @ [row], f1) s1
               \<and> row_of_campaign c row \<and> r_included row = claimed_inclusion cfg cutoff c
               \<and> row_decision cfg cutoff row = claimed_inclusion cfg cutoff c)
        \<or> (filter_loop cfg rem dsk cutoff (c # cs) (w, f) s
              = filter_loop cfg rem dsk cutoff cs (w, f1) (emit (Log (Campaign_skipped (c_id c))) s1)
            \<and> \<not> (\<forall>n. dsk n))"
      unfolding f1_def by blast
    from calm obtain e1 where e1: "trace s1 = trace s @ e1"
      "list_all (\<lambda>e. quiet e \<and> \<not> is_campaign_skipped e) e1" by (auto simp: appends_def)
    from e1(2) have q1: "list_all quiet e1" by (simp add: list_all_iff)
    note nk = calm_filter [OF e1(2)]
    from alt show ?thesis
    proof
      assume "\<exists>row. filter_loop cfg rem dsk cutoff (c # cs) (w, f) s
                  = filter_loop cfg rem dsk cutoff cs (w @ [row], f1) s1
               \<and> row_of_campaign c row \<and> r_included row = claimed_inclusion cfg cutoff c
               \<and> row_decision cfg cutoff row = claimed_inclusion cfg cutoff c"
      then obtain row where r: "filter_loop cfg rem dsk cutoff (c # cs) (w, f) s
                  = filter_loop cfg rem dsk cutoff cs (w @ [row], f1) s1"
        "row_of_campaign c row" "r_included row = claimed_inclusion cfg cutoff c"
        "row_decision cfg cutoff row = claimed_inclusion cfg cutoff c" by blast
      from Cons.prems r(1) have run: "filter_loop cfg rem dsk cutoff cs (w @ [row], f1) s1 = ((w', f'), s')"
        by simp
      from Cons.IH [OF run] obtain kept new evs where ih:
        "f' = f1 @ filter ?P cs" "w' = (w @ [row]) @ new" "trace s' = trace s1 @ evs"
        "subseq kept (filter timestamps_parse cs)" "list_all2 row_of_campaign kept new"
        "list_all2 (\<lambda>c row. r_included row = claimed_inclusion cfg cutoff c) kept new"
        "list_all (\<lambda>row. r_included row = row_decision cfg cutoff row) new"
        "(\<forall>n. dsk n) \<longrightarrow> kept = filter timestamps_parse cs"
        "list_all quiet evs"
        "length (filter is_campaign_skipped evs) + length new = length cs"
        "\<forall>c\<in>set cs. \<not> timestamps_parse c \<longrightarrow> Log (Campaign_skipped (c_id c)) \<in> set evs"
        by blast
      have "f' = f @ filter ?P (c # cs)" using ih(1) True by (simp add: f1_def)
      moreover have "\<exists>kept new evs. w' = w @ new \<and> trace s' = trace s @ evs
          \<and> subseq kept (filter timestamps_parse (c # cs))
          \<and> list_all2 row_of_campaign kept new
          \<and> list_all2 (\<lambda>c row. r_included row = claimed_inclusion cfg cutoff c) kept new
          \<and> list_all (\<lambda>row. r_included row = row_decision cfg cutoff row) new
          \<and> ((\<forall>n. dsk n) \<longrightarrow> kept = filter timestamps_parse (c # cs))
          \<and> list_all quiet evs
          \<and> length (filter is_campaign_skipped evs) + length new = length (c # cs)
          \<and> (\<forall>c\<in>set (c # cs). \<not> timestamps_parse c \<longrightarrow> Log (Campaign_skipped (c_id c)) \<in> set evs)"
        using ih(2-11) r(2-4) True e1(1) q1 nk
        by (intro exI [of _ "c # kept"] exI [of _ "row # new"] exI [of _ "e1 @ evs"]) auto
      ultimately show ?thesis by blast
    next
      assume "filter_loop cfg rem dsk cutoff (c # cs) (w, f) s
              = filter_loop cfg rem dsk cutoff cs (w, f1) (emit (Log (Campaign_skipped (c_id c))) s1)
            \<and> \<not> (\<forall>n. dsk n)"
      then have r: "filter_loop cfg rem dsk cutoff (c # cs) (w, f) s
              = filter_loop cfg rem dsk cutoff cs (w, f1) (emit (Log (Campaign_skipped (c_id c))) s1)"
        and nd: "\<not> (\<forall>n. dsk n)" by simp_all
      let ?s2 = "emit (Log (Campaign_skipped (c_id c))) s1"
      from Cons.prems r have run: "filter_loop cfg rem dsk cutoff cs (w, f1) ?s2 = ((w', f'), s')"
        by simp
      from Cons.IH [OF run] obtain kept new evs where ih:
        "f' = f1 @ filter ?P cs" "w' = w @ new" "trace s' = trace ?s2 @ evs"
        "subseq kept (filter timestamps_parse cs)" "list_all2 row_of_campaign kept new"
        "list_all2 (\<lambda>c row. r_included row = claimed_inclusion cfg cutoff c) kept new"
        "list_all (\<lambda>row. r_included row = row_decision cfg cutoff row) new"
        "list_all quiet evs"
        "length (filter is_campaign_skipped evs) + length new = length cs"
        "\<forall>c\<in>set cs. \<not> timestamps_parse c \<longrightarrow> Log (Campaign_skipped (c_id c)) \<in> set evs"
        by blast
      have "f' = f @ filter ?P (c # cs)" using ih(1) True by (simp add: f1_def)
      moreover have "subseq kept (filter timestamps_parse (c # cs))"
        using ih(4) True by (simp add: list_emb_Cons)
      then have "\<exists>kept new evs. w' = w @ new \<and> trace s' = trace s @ evs
          \<and> subseq kept (filter timestamps_parse (c # cs))
          \<and> list_all2 row_of_campaign kept new
          \<and> list_all2 (\<lambda>c row. r_included row = claimed_inclusion cfg cutoff c) kept new
          \<and> list_all (\<lambda>row. r_included row = row_decision cfg cutoff row) new
          \<and> ((\<forall>n. dsk n) \<longrightarrow> kept = filter timestamps_parse (c # cs))
          \<and> list_all quiet evs
          \<and> length (filter is_campaign_skipped evs) + length new = length (c # cs)
          \<and> (\<forall>c\<in>set (c # cs). \<not> timestamps_parse c \<longrightarrow> Log (Campaign_skipped (c_id c)) \<in> set evs)"
        using ih(2,3,5-10) True e1(1) q1 nk nd
        by (intro exI [of _ kept] exI [of _ new]
            exI [of _ "e1 @ Log (Campaign_skipped (c_id c)) # evs"]) auto
      ultimately show ?thesis by blast
    qed
  qed
qed

lemma filter_and_analyze_result:
  assumes "filter_and_analyze_campaigns cfg rem dsk now campaigns s = (filtered, s')"
  shows "filtered = filter (\<lambda>c. timestamps_parse c
            \<and> claimed_inclusion cfg (now - days_without_activity cfg * day_us) c) campaigns"
    and "\<exists>kept. subseq kept (filter timestamps_parse campaigns)
          \<and> list_all2 row_of_campaign kept (report_csv s')
          \<and> list_all2 (\<lambda>c row. r_included row
                = claimed_inclusion cfg (now - days_without_activity cfg * day_us) c) kept (report_csv s')
          \<and> ((\<forall>n. dsk n) \<longrightarrow> kept = filter timestamps_parse campaigns)"
    and "list_all (\<lambda>row. r_included row
            = row_decision cfg (now - days_without_activity cfg * day_us) row) (report_csv s')"
    and "appends quiet s s'"
    and "\<forall>c\<in>set campaigns. \<not> timestamps_parse c \<longrightarrow> Log (Campaign_skipped (c_id c)) \<in> set (trace s')"
    and "campaigns_fetched s' = length campaigns" and "campaigns_filtered s' = length filtered"
    and "length (filter is_campaign_skipped (drop (length (trace s)) (trace s')))
          + length (report_csv s') = length campaigns"
proof -
  let ?cutoff = "now - days_without_activity cfg * day_us"
  let ?s0 = "s\<lparr>output_files := output_files s @ [''all_campaigns_analysis.csv'']\<rparr>"
  obtain w f s1 where loop: "filter_loop cfg rem dsk ?cutoff campaigns ([], []) ?s0 = ((w, f), s1)"
    by (cases "filter_loop cfg rem dsk ?cutoff campaigns ([], []) ?s0") auto
  from assms loop have res: "filtered = f" "report_csv s' = w" "trace s' = trace s1 @ [Report_written w]"
    "campaigns_fetched s' = length campaigns" "campaigns_filtered s' = length filtered"
    by (auto simp: filter_and_analyze_campaigns_def Let_def)
  from filter_loop_result [OF loop] obtain kept evs where r:
    "f = filter (\<lambda>c. timestamps_parse c \<and> claimed_inclusion cfg ?cutoff c) campaigns"
    "trace s1 = trace s @ evs"
    "subseq kept (filter timestamps_parse campaigns)"
    "list_all2 row_of_campaign kept w"
    "list_all2 (\<lambda>c row. r_included row = claimed_inclusion cfg ?cutoff c) kept w"
    "list_all (\<lambda>row. r_included row = row_decision cfg ?cutoff row) w"
    "(\<forall>n. dsk n) \<longrightarrow> kept = filter timestamps_parse campaigns"
    "list_all quiet evs"
    "length (filter is_campaign_skipped evs) + length w = length campaigns"
    "\<forall>c\<in>set campaigns. \<not> timestamps_parse c \<longrightarrow> Log (Campaign_skipped (c_id c)) \<in> set evs"
    by auto
  from r(2,8) res(3) have ap: "appends quiet s s'" by (auto simp: appends_def)
  from r(2) res(3) have dr: "drop (length (trace s)) (trace s') = evs @ [Report_written w]" by simp
  show "filtered = filter (\<lambda>c. timestamps_parse c \<and> claimed_inclusion cfg ?cutoff c) campaigns"
    using res(1) r(1) by simp
  show "\<exists>kept. subseq kept (filter timestamps_parse campaigns)
          \<and> list_all2 row_of_campaign kept (report_csv s')
          \<and> list_all2 (\<lambda>c row. r_included row = claimed_inclusion cfg ?cutoff c) kept (report_csv s')
          \<and> ((\<forall>n. dsk n) \<longrightarrow> kept = filter timestamps_parse campaigns)"
    using r(3,4,5,7) res(2) by auto
  show "list_all (\<lambda>row. r_included row = row_decision cfg ?cutoff row) (report_csv s')"
    using r(6) res(2) by simp
  show "appends quiet s s'" by (rule ap)
  show "\<forall>c\<in>set campaigns. \<not> timestamps_parse c \<longrightarrow> Log (Campaign_skipped (c_id c)) \<in> set (trace s')"
    using r(2,10) res(3) by auto
  show "campaigns_fetched s' = length campaigns" "campaigns_filtered s' = length filtered"
    by (rule res(4), rule res(5))
  show "length (filter is_campaign_skipped (drop (length (trace s)) (trace s')))
          + length (report_csv s') = length campaigns"
    using r(9) res(2) dr by simp
qed

lemma filtered_campaigns_eq:
  "fst (filter_and_analyze_campaigns cfg rem dsk now campaigns s)
     = filter (\<lambda>c. timestamps_parse c
            \<and> claimed_inclusion cfg (now - days_without_activity cfg * day_us) c) campaigns"
  by (rule filter_and_analyze_result(1)) (rule prod.collapse [symmetric])

text \<open>
  Claim C3, amended: for every campaign of the fetched list whose two timestamps are
  parsed, the filter includes it iff its client is not excluded, its status is PAUSED or
  COMPLETED and its creation time is at or before the cutoff; a campaign with a timestamp
  that is not parsed is never included; the flag of every line of the report is that
  rule applied to the line's own client, status and creation time; and the list of
  included campaigns is the same whatever the remote service answers to the exports and
  whatever the local disk does, so it does not depend on the lead counts.
\<close>

theorem inclusion_decision_of_parsed_campaigns:
  "(let cutoff_date = now - days_without_activity cfg * day_us;
        filtered = fst (filter_and_analyze_campaigns cfg rem dsk now campaigns s);
        report = report_csv (snd (filter_and_analyze_campaigns cfg rem dsk now campaigns s))
    in (\<forall>c\<in>set campaigns. timestamps_parse c \<longrightarrow>
          (c \<in> set filtered \<longleftrightarrow> claimed_inclusion cfg cutoff_date c))
     \<and> (\<forall>c\<in>set campaigns. \<not> timestamps_parse c \<longrightarrow> c \<notin> set filtered)
     \<and> (\<forall>row\<in>set report. r_included row \<longleftrightarrow> row_decision cfg cutoff_date row)
     \<and> filtered = fst (filter_and_analyze_campaigns cfg rem' dsk' now campaigns s''))"
proof -
  have "list_all (\<lambda>row. r_included row = row_decision cfg (now - days_without_activity cfg * day_us) row)
      (report_csv (snd (filter_and_analyze_campaigns cfg rem dsk now campaigns s)))"
    by (rule filter_and_analyze_result(3)) (rule prod.collapse [symmetric])
  then show ?thesis
    by (auto simp: Let_def filtered_campaigns_eq list_all_iff)
qed

lemma example_campaign_included:
  "timestamps_parse example_campaign"
  "claimed_inclusion script_config (forty_days - days_without_activity script_config * day_us) example_campaign"
  by (simp_all add: timestamps_parse_def claimed_inclusion_def example_campaign_def script_config_def
      DAYS_WITHOUT_ACTIVITY_def EXCLUDE_CLIENT_IDS_def forty_days_def day_us_def)

text \<open>
  A paused campaign created 40 days ago is included, the same campaign with the status
  ACTIVE is not.
\<close>

theorem inclusion_decision_of_parsed_campaigns_witness:
  "timestamps_parse example_campaign
   \<and> claimed_inclusion script_config (forty_days - days_without_activity script_config * day_us) example_campaign
   \<and> example_campaign \<in> set (fst (filter_and_analyze_campaigns script_config (\<lambda>n. No_reply) (\<lambda>n. True) forty_days
        [example_campaign, example_campaign\<lparr>c_status := ''ACTIVE''\<rparr>] initial_state))
   \<and> example_campaign\<lparr>c_status := ''ACTIVE''\<rparr> \<notin> set (fst (filter_and_analyze_campaigns script_config
        (\<lambda>n. No_reply) (\<lambda>n. True) forty_days
        [example_campaign, example_campaign\<lparr>c_status := ''ACTIVE''\<rparr>] initial_state))"
proof -
  have "timestamps_parse (example_campaign\<lparr>c_status := ''ACTIVE''\<rparr>)"
    "\<not> claimed_inclusion script_config (forty_days - days_without_activity script_config * day_us)
        (example_campaign\<lparr>c_status := ''ACTIVE''\<rparr>)"
    by (simp_all add: timestamps_parse_def claimed_inclusion_def example_campaign_def)
  with example_campaign_included
    inclusion_decision_of_parsed_campaigns [where campaigns = "[example_campaign, example_campaign\<lparr>c_status := ''ACTIVE''\<rparr>]"
      and now = forty_days and cfg = script_config and rem = "\<lambda>n. No_reply" and dsk = "\<lambda>n. True"
      and s = initial_state and rem' = "\<lambda>n. No_reply" and dsk' = "\<lambda>n. True" and s'' = initial_state]
  show ?thesis by (simp add: Let_def)
qed

text \<open>
  Claim C3, as stated, fails: a paused campaign of a client that is not excluded, created
  before the cutoff, whose update time is missing, meets the three conditions and is not
  included.
\<close>

theorem unparsed_update_time_excludes:
  "claimed_inclusion script_config (forty_days - days_without_activity script_config * day_us)
      (example_campaign\<lparr>c_updated_at := None\<rparr>)
   \<and> example_campaign\<lparr>c_updated_at := None\<rparr> \<notin> set (fst (filter_and_analyze_campaigns script_config
        (\<lambda>n. No_reply) (\<lambda>n. True) forty_days [example_campaign\<lparr>c_updated_at := None\<rparr>] initial_state))"
  using example_campaign_included(2)
  by (simp add: filtered_campaigns_eq timestamps_parse_def claimed_inclusion_def)



lemma send_request_from_no_reply:
  assumes "\<And>n. rem n = No_reply"
  shows "fst (send_request_from a k rem ep s) = None"
  using assms by (induction k arbitrary: a s) (simp_all add: Let_def)




section \<open>The stages of a run\<close>

lemma quiet_early: "quiet e \<Longrightarrow> early k e"
  by (cases e) auto

lemma early_mono: "early j e \<Longrightarrow> j \<le> k \<Longrightarrow> early k e"
  by (cases e) auto

lemma select_campaigns_trace:
  "trace (snd (select_campaigns_for_deletion sort_values cfg filtered_campaigns s)) = trace s"
  by (simp add: select_campaigns_for_deletion_def Let_def split: prod.splits)

lemma export_leads_csv_error:
  "export_leads_csv rem dsk cid s = (Inl e, s') \<Longrightarrow> e = File_error"
  by (auto simp: export_leads_csv_def split: if_splits prod.splits option.splits)

lemma backup_loop_result:
  assumes "backup_loop rem dsk rows acc s = (r, s')" and "list_all (\<lambda>l. l \<noteq> []) acc"
  shows "appends quiet s s' \<and> (\<forall>acc'. r = Inr acc' \<longrightarrow> list_all (\<lambda>l. l \<noteq> []) acc')
    \<and> (\<forall>e. r = Inl e \<longrightarrow> e = File_error)"
  using assms
proof (induction rows arbitrary: acc s)
  case Nil
  then show ?case by auto
next
  case (Cons row rows)
  obtain er s1 where ex: "export_leads_csv rem dsk (r_campaign_id row) s = (er, s1)"
    by (cases "export_leads_csv rem dsk (r_campaign_id row) s")
  note a1 = export_leads_csv_appends [OF ex]
  show ?case
  proof (cases er)
    case (Inl e)
    with Cons.prems(1) ex have "r = Inl e" "s' = s1" by simp_all
    moreover from ex Inl have "e = File_error" by (auto dest: export_leads_csv_error)
    ultimately show ?thesis using a1 by simp
  next
    case (Inr lf)
    show ?thesis
    proof (cases lf)
      case None
      let ?s2 = "emit (Log (Export_failed (r_campaign_id row))) s1"
      from Cons.prems(1) ex Inr None have run: "backup_loop rem dsk rows acc ?s2 = (r, s')" by simp
      have "appends quiet s ?s2" using a1 by (auto intro: appends_emit)
      with Cons.IH [OF run Cons.prems(2)] show ?thesis by (auto intro: appends_trans)
    next
      case (Some leads_file)
      obtain df t n where an: "analyze_campaign_leads leads_file = (df, t, n)"
        by (cases "analyze_campaign_leads leads_file")
      show ?thesis
      proof (cases "df = []")
        case True
        with Cons.prems(1) ex Inr Some an have run: "backup_loop rem dsk rows acc s1 = (r, s')" by simp
        with Cons.IH [OF run Cons.prems(2)] a1 show ?thesis by (auto intro: appends_trans)
      next
        case False
        let ?s2 = "s1\<lparr>total_leads_exported := total_leads_exported s1 + t,
                       no_reply_leads_found := no_reply_leads_found s1 + n\<rparr>"
        from Cons.prems(1) ex Inr Some an False
        have run: "backup_loop rem dsk rows (acc @ [map (tag_lead row) df]) ?s2 = (r, s')" by simp
        have "appends quiet s ?s2" using a1 by (simp add: appends_def)
        moreover have "list_all (\<lambda>l. l \<noteq> []) (acc @ [map (tag_lead row) df])"
          using Cons.prems(2) False by simp
        ultimately show ?thesis using Cons.IH [OF run] by (auto intro: appends_trans)
      qed
    qed
  qed
qed

text \<open>
  \<^verbatim>\<open>create_deletion_backup\<close> returns a backup that is not empty only after it has written
  it, which takes \<open>write_ok\<close>; otherwise it writes nothing, and returns the empty backup
  or raises.
\<close>

lemma create_deletion_backup_result:
  assumes "create_deletion_backup write_ok rem dsk selected s = (res, s')"
  shows "(\<exists>backup_file df sb. res = Inr (backup_file, df) \<and> df \<noteq> [] \<and> write_ok \<and> appends quiet s sb
            \<and> trace s' = trace sb @ [Backup_written df])
       \<or> ((res = Inr (None, []) \<or> (\<exists>e. res = Inl e \<and> halting_step e = 6)) \<and> appends quiet s s')"
proof -
  let ?s0 = "s\<lparr>output_files := output_files s @ [''leads_deletion_backup.csv'']\<rparr>"
  obtain r s1 where loop: "backup_loop rem dsk selected [] ?s0 = (r, s1)"
    by (cases "backup_loop rem dsk selected [] ?s0")
  from backup_loop_result [OF loop] have a: "appends quiet ?s0 s1"
    and ne: "\<forall>acc. r = Inr acc \<longrightarrow> list_all (\<lambda>l. l \<noteq> []) acc"
    and fe: "\<forall>e. r = Inl e \<longrightarrow> e = File_error"
    by simp_all
  from a have a': "appends quiet s s1" by (simp add: appends_def)
  show ?thesis
  proof (cases r)
    case (Inl e)
    with assms loop have r: "res = Inl e" "s' = s1"
      by (simp_all add: create_deletion_backup_def Let_def)
    from fe Inl have "e = File_error" by simp
    with r a' show ?thesis by simp
  next
    case (Inr acc)
    with ne have nea: "list_all (\<lambda>l. l \<noteq> []) acc" by simp
    show ?thesis
    proof (cases "acc = []")
      case True
      with assms loop Inr have "res = Inr (None, [])" "s' = emit (Log No_leads_found) s1"
        by (simp_all add: create_deletion_backup_def Let_def)
      with a' show ?thesis by (auto intro: appends_emit)
    next
      case False
      with nea have c: "concat acc \<noteq> []" by (cases acc) auto
      show ?thesis
      proof (cases write_ok)
        case True
        with assms loop Inr False have "res = Inr (Some ''leads_deletion_backup.csv'', concat acc)"
          "trace s' = trace s1 @ [Backup_written (concat acc)]"
          by (auto simp add: create_deletion_backup_def Let_def)
        with c a' True show ?thesis by blast
      next
        case wf: False
        with assms loop Inr False have "res = Inl Backup_write_error" "s' = s1"
          by (simp_all add: create_deletion_backup_def Let_def)
        with a' show ?thesis by simp
      qed
    qed
  qed
qed

lemma attach_files_appends:
  "attach_files env paths attached s = (r, s') \<Longrightarrow> appends mail_event s s'"
proof (induction paths arbitrary: attached s)
  case Nil
  then show ?case by simp
next
  case (Cons p paths)
  show ?case
  proof (cases "isfile env p")
    case True
    with Cons show ?thesis by (cases "read_fails env p") auto
  next
    case False
    with Cons.prems have "attach_files env paths attached (emit (Log (Attachment_not_found p)) s) = (r, s')"
      by simp
    from Cons.IH [OF this] have "appends mail_event (emit (Log (Attachment_not_found p)) s) s'" .
    moreover have "appends mail_event s (emit (Log (Attachment_not_found p)) s)"
      by (rule appends_emit) simp_all
    ultimately show ?thesis by (rule appends_trans [rotated])
  qed
qed

text \<open>
  The \<^verbatim>\<open>try\<close> block of \<^verbatim>\<open>send_email\<close> either dispatches the mail and logs it, last, or
  raises.
\<close>

lemma send_email_try_result:
  assumes "send_email_try env subject body_text attachments s = (r, s1)"
  shows "(r = Inr True \<and> (\<exists>s2 att. appends mail_event s s2
              \<and> s1 = emit (Log Email_ok) (emit (Email_dispatched subject att) s2)))
       \<or> ((\<exists>e. r = Inl e) \<and> appends mail_event s s1)"
proof (cases "compose_fails env")
  case True
  with assms have "r = Inl Compose_error" "s1 = s" by (auto simp: send_email_try_def)
  then show ?thesis by (simp add: appends_refl)
next
  case False
  obtain ar s2 where at: "attach_files env attachments [] s = (ar, s2)"
    by (cases "attach_files env attachments [] s")
  note a = attach_files_appends [OF at]
  show ?thesis
  proof (cases ar)
    case (Inl e)
    with assms at False have "r = Inl e" "s1 = s2" by (simp_all add: send_email_try_def)
    with a show ?thesis by simp
  next
    case (Inr att)
    show ?thesis
    proof (cases "smtp_fails env")
      case True
      with assms at False Inr have "r = Inl Smtp_error" "s1 = s2" by (simp_all add: send_email_try_def)
      with a show ?thesis by simp
    next
      case nf: False
      with assms at False Inr have "r = Inr True"
        "s1 = emit (Log Email_ok) (emit (Email_dispatched subject att) s2)"
        by (simp_all add: send_email_try_def)
      with a show ?thesis by blast
    qed
  qed
qed

text \<open>
  \<^verbatim>\<open>send_email\<close> returns a truth value. Its events are the attempt, then events of the
  mail that end with the dispatch and its log line when the result is true, and with the
  log line of the failure when it is false.
\<close>

lemma send_email_result:
  "\<exists>sent s' rest. send_email env subject body_text attachments s = (Inr sent, s')
     \<and> trace s' = trace s @ Email_attempt subject attachments # rest \<and> list_all mail_event rest
     \<and> ((sent \<and> (\<exists>pre att. rest = pre @ [Email_dispatched subject att, Log Email_ok]))
        \<or> (\<not> sent \<and> (\<exists>pre e. rest = pre @ [Log (Email_failed e)])))"
proof -
  let ?s0 = "emit (Email_attempt subject attachments) s"
  obtain r s1 where t: "send_email_try env subject body_text attachments ?s0 = (r, s1)"
    by (cases "send_email_try env subject body_text attachments ?s0")
  from send_email_try_result [OF t] show ?thesis
  proof
    assume "r = Inr True \<and> (\<exists>s2 att. appends mail_event ?s0 s2
              \<and> s1 = emit (Log Email_ok) (emit (Email_dispatched subject att) s2))"
    then obtain s2 att pre where ok: "r = Inr True" "trace s2 = trace ?s0 @ pre" "list_all mail_event pre"
      "s1 = emit (Log Email_ok) (emit (Email_dispatched subject att) s2)"
      by (auto simp: appends_def)
    from t ok(1) have "send_email env subject body_text attachments s = (Inr True, s1)"
      by (simp add: send_email_def)
    moreover from ok(2,4) have "trace s1 = trace s @ Email_attempt subject attachments
        # (pre @ [Email_dispatched subject att, Log Email_ok])" by simp
    moreover from ok(3) have "list_all mail_event (pre @ [Email_dispatched subject att, Log Email_ok])"
      by simp
    ultimately show ?thesis by blast
  next
    assume "(\<exists>e. r = Inl e) \<and> appends mail_event ?s0 s1"
    then obtain e pre where er: "r = Inl e" "trace s1 = trace ?s0 @ pre" "list_all mail_event pre"
      by (auto simp: appends_def)
    from t er(1) have "send_email env subject body_text attachments s
        = (Inr False, emit (Log (Email_failed e)) s1)"
      by (simp add: send_email_def)
    moreover from er(2) have "trace (emit (Log (Email_failed e)) s1)
        = trace s @ Email_attempt subject attachments # (pre @ [Log (Email_failed e)])" by simp
    moreover from er(3) have "list_all mail_event (pre @ [Log (Email_failed e)])" by simp
    ultimately show ?thesis by blast
  qed
qed

text \<open>When nothing of the mail fails, the mail goes out with the attachments that are files.\<close>

lemma send_email_sends:
  assumes "\<not> compose_fails env" and "\<not> smtp_fails env"
    and "\<And>p. p \<in> set attachments \<Longrightarrow> isfile env p \<Longrightarrow> \<not> read_fails env p"
  shows "Email_dispatched subject (filter (isfile env) attachments)
      \<in> set (trace (snd (send_email env subject body_text attachments s)))"
proof -
  let ?s0 = "emit (Email_attempt subject attachments) s"
  from attach_files_ok [of attachments env "[]" ?s0] assms(3) obtain s1 where
    "attach_files env attachments [] ?s0 = (Inr (filter (isfile env) attachments), s1)" by auto
  with assms(1,2) show ?thesis
    by (simp add: send_email_def send_email_try_def)
qed

lemma send_failure_email_result:
  "\<exists>s' rest. send_failure_email env e s = (Inr (), s')
     \<and> s' = snd (send_email (mail env) ''SmartLead Deletion FAILED''
                ''SmartLead Lead Deletion Process FAILED'' (log_filename # output_files s) s)
     \<and> trace s' = trace s @ Email_attempt ''SmartLead Deletion FAILED'' (log_filename # output_files s) # rest
     \<and> list_all mail_event rest
     \<and> ((\<exists>pre att. rest = pre @ [Email_dispatched ''SmartLead Deletion FAILED'' att, Log Email_ok])
        \<or> (\<exists>pre me. rest = pre @ [Log (Email_failed me)]))"
  using send_email_result [of "mail env" "''SmartLead Deletion FAILED''"
      "''SmartLead Lead Deletion Process FAILED''" "log_filename # output_files s" s]
  by (auto simp: send_failure_email_def)

lemma send_completion_email_result:
  "\<exists>s' rest. send_completion_email env s = (Inr (), s')
     \<and> trace s' = trace s @ Email_attempt ''SmartLead Deletion Complete'' (log_filename # output_files s) # rest
     \<and> list_all mail_event rest"
proof -
  obtain sent s1 rest where r: "send_email (mail env) ''SmartLead Deletion Complete''
      ''SmartLead Lead Deletion Process Completed'' (log_filename # output_files s) s = (Inr sent, s1)"
    "trace s1 = trace s @ Email_attempt ''SmartLead Deletion Complete'' (log_filename # output_files s) # rest"
    "list_all mail_event rest"
    using send_email_result [of "mail env" "''SmartLead Deletion Complete''"
      "''SmartLead Lead Deletion Process Completed''" "log_filename # output_files s" s] by blast
  let ?m = "Log (if sent then Completion_email_ok else Completion_email_failed)"
  from r(1) have "send_completion_email env s = (Inr (), emit ?m s1)"
    by (simp add: send_completion_email_def)
  moreover from r(2) have "trace (emit ?m s1)
      = trace s @ Email_attempt ''SmartLead Deletion Complete'' (log_filename # output_files s) # (rest @ [?m])"
    by simp
  moreover from r(3) have "list_all mail_event (rest @ [?m])" by simp
  ultimately show ?thesis by blast
qed

lemma delete_call_event_deletion:
  "delete_call_event c l e \<Longrightarrow> in_backup df c l \<Longrightarrow> deletion_event df e"
  unfolding delete_call_event_def
  by (cases "(Delete_lead c l, e)" rule: request_event.cases) auto

lemma delete_rows_appends:
  assumes "delete_rows rem n idx rows (a, b) s = (cnt, s')" and "set rows \<subseteq> set df"
  shows "appends (deletion_event df) s s'"
  using assms
proof (induction rows arbitrary: idx a b s)
  case Nil
  then show ?case by simp
next
  case (Cons row rows)
  show ?case
  proof (cases "has_ids row")
    case False
    with Cons.prems have run: "delete_rows rem n (Suc idx) rows (a, Suc b) (emit (Log (Row_missing_ids idx)) s) = (cnt, s')"
      by (auto simp: has_ids_def split: option.splits)
    have "appends (deletion_event df) s (emit (Log (Row_missing_ids idx)) s)"
      by (rule appends_emit) simp_all
    moreover from Cons.IH [OF run] Cons.prems(2)
    have "appends (deletion_event df) (emit (Log (Row_missing_ids idx)) s) s'" by simp
    ultimately show ?thesis by (rule appends_trans)
  next
    case True
    then obtain c l where ids: "b_campaign_id row = Some c" "lead_id (b_lead row) = Some l"
      by (auto simp: has_ids_def)
    with Cons.prems(2) have inb: "in_backup df c l" by (auto simp: in_backup_def)
    obtain ok s1 where d: "delete_single_lead rem c l s = (ok, s1)"
      by (cases "delete_single_lead rem c l s")
    define a' where "a' = (if ok then a + 1 else a)"
    define b' where "b' = (if ok then b else b + 1)"
    define s3 where "s3 = (if (a' + b') mod 100 = 0
        then emit (Log (Progress (a' + b') n)) (emit Rate_limit_sleep s1) else emit Rate_limit_sleep s1)"
    from Cons.prems(1) ids d have run: "delete_rows rem n (Suc idx) rows (a', b') s3 = (cnt, s')"
      by (auto simp: Let_def a'_def b'_def s3_def split: if_splits)
    from delete_single_lead_appends [OF d] have "appends (deletion_event df) s s1"
      by (rule appends_mono) (rule delete_call_event_deletion [OF _ inb])
    then have "appends (deletion_event df) s s3"
      by (auto simp: s3_def intro!: appends_emit)
    moreover from Cons.IH [OF run] Cons.prems(2) have "appends (deletion_event df) s3 s'" by simp
    ultimately show ?thesis by (rule appends_trans)
  qed
qed

lemma delete_leads_appends: "appends (deletion_event df) s (delete_leads rem df s)"
proof (cases "df = []")
  case True
  then show ?thesis by (auto simp: delete_leads_def intro: appends_emit)
next
  case False
  obtain cnt s1 where run: "delete_rows rem (length df) 0 df (0, 0) s = (cnt, s1)"
    by (cases "delete_rows rem (length df) 0 df (0, 0) s")
  from delete_rows_appends [OF run] have "appends (deletion_event df) s s1" by simp
  moreover from run False have "trace (delete_leads rem df s) = trace s1"
    by (simp add: delete_leads_def split: prod.splits)
  ultimately show ?thesis by (simp add: appends_def)
qed

lemma deletion_late: "deletion_event df e \<Longrightarrow> late df e"
  by (cases e) auto

lemma mail_late: "mail_event e \<Longrightarrow> late df e"
  by (cases e) auto

text \<open>
  The two shapes of the trace of the six steps. Either one of the steps 1 to 4 raised:
  then the events are marks of steps up to that one and quiet events. Or the backup was
  written, not empty: before it, marks of steps up to 4 and quiet events; after it, the
  events of the deletion of that backup, of the completion mail, and marks of steps; and
  the writing of the backup file raised nothing.
\<close>

lemma run_steps_result:
  assumes "run_steps sort_values cfg env s = (res, s')"
  shows "(\<exists>e. res = Inl e \<and> appends (early (halting_step e)) s s')
       \<or> (\<exists>sb df. res = Inr () \<and> df \<noteq> [] \<and> backup_write_ok env \<and> appends (early 4) s sb
            \<and> appends (late df) (emit (Backup_written df) sb) s')"
proof -
  let ?rem = "remote_service env"
  let ?dsk = "local_disk env"
  have st: "\<And>k n s. n \<le> k \<Longrightarrow> appends (early k) s (emit (Step n) s)"
    by (rule appends_emit) simp_all
  obtain r1 s1 where f: "fetch_all_campaigns ?rem (emit (Step 1) s) = (r1, s1)"
    by (cases "fetch_all_campaigns ?rem (emit (Step 1) s)")
  have a1: "appends (early k) s s1" if "1 \<le> k" for k
    using st [OF that, of s] fetch_all_campaigns_appends [OF f]
    by (auto intro: appends_trans appends_mono quiet_early)
  show ?thesis
  proof (cases r1)
    case (Inl e)
    with assms f have "res = Inl e" "s' = s1" by (simp_all add: run_steps_def)
    moreover have "1 \<le> halting_step e" by (cases e) simp_all
    ultimately show ?thesis using a1 by blast
  next
    case (Inr campaigns)
    note r1 = this
    show ?thesis
    proof (cases "campaigns = []")
      case True
      with assms f r1 have "res = Inl No_campaigns_retrieved" "s' = s1" by (simp_all add: run_steps_def)
      with a1 [of 1] show ?thesis by auto
    next
      case c_ne: False
      obtain filtered s2 where fl: "filter_and_analyze_campaigns cfg ?rem ?dsk (clock_now env) campaigns (emit (Step 2) s1) = (filtered, s2)"
        by (cases "filter_and_analyze_campaigns cfg ?rem ?dsk (clock_now env) campaigns (emit (Step 2) s1)")
      have a2: "appends (early k) s s2" if "2 \<le> k" for k
      proof -
        from that have "appends (early k) s s1" by (intro a1) simp
        moreover have "appends (early k) s1 (emit (Step 2) s1)" using that by (rule st)
        moreover have "appends (early k) (emit (Step 2) s1) s2"
          using filter_and_analyze_result(4) [OF fl] by (rule appends_mono) (rule quiet_early)
        ultimately show ?thesis by (blast intro: appends_trans)
      qed
      show ?thesis
      proof (cases "filtered = []")
        case True
        with assms f r1 c_ne fl have "res = Inl No_campaigns_match" "s' = s2" by (simp_all add: run_steps_def)
        with a2 [of 2] show ?thesis by auto
      next
        case f_ne: False
        obtain selected s3 where sl: "select_campaigns_for_deletion sort_values cfg filtered (emit (Step 3) s2) = (selected, s3)"
          by (cases "select_campaigns_for_deletion sort_values cfg filtered (emit (Step 3) s2)")
        have t3: "trace s3 = trace s2 @ [Step 3]"
          using select_campaigns_trace [of sort_values cfg filtered "emit (Step 3) s2"] sl by simp
        have a3: "appends (early k) s s3" if "3 \<le> k" for k
        proof -
          from that have "appends (early k) s s2" by (intro a2) simp
          moreover have "appends (early k) s2 s3" using t3 that by (simp add: appends_def)
          ultimately show ?thesis by (rule appends_trans)
        qed
        show ?thesis
        proof (cases "selected = []")
          case True
          with assms f r1 c_ne fl f_ne sl have "res = Inl No_campaigns_selected" "s' = s3"
            by (simp_all add: run_steps_def)
          with a3 [of 3] show ?thesis by auto
        next
          case s_ne: False
          obtain r4 s4 where bk: "create_deletion_backup (backup_write_ok env) ?rem ?dsk selected (emit (Step 4) s3) = (r4, s4)"
            by (cases "create_deletion_backup (backup_write_ok env) ?rem ?dsk selected (emit (Step 4) s3)")
          have a3': "appends (early 4) s (emit (Step 4) s3)"
            using a3 [of 4] st [of 4 4 s3] by (auto intro: appends_trans)
          from create_deletion_backup_result [OF bk] show ?thesis
          proof
            assume "(r4 = Inr (None, []) \<or> (\<exists>e. r4 = Inl e \<and> halting_step e = 6))
                \<and> appends quiet (emit (Step 4) s3) s4"
            then have r4: "r4 = Inr (None, []) \<or> (\<exists>e. r4 = Inl e \<and> halting_step e = 6)"
              and q: "appends quiet (emit (Step 4) s3) s4" by simp_all
            from q have "appends (early 4) (emit (Step 4) s3) s4" by (rule appends_mono) (rule quiet_early)
            with a3' have a4: "appends (early 4) s s4" by (rule appends_trans)
            from r4 show ?thesis
            proof
              assume "r4 = Inr (None, [])"
              with assms f r1 c_ne fl f_ne sl s_ne bk have "res = Inl No_leads_for_backup" "s' = s4"
                by (simp_all add: run_steps_def)
              with a4 show ?thesis by auto
            next
              assume "\<exists>e. r4 = Inl e \<and> halting_step e = 6"
              then obtain e where e: "r4 = Inl e" "halting_step e = 6" by blast
              with assms f r1 c_ne fl f_ne sl s_ne bk have "res = Inl e" "s' = s4"
                by (simp_all add: run_steps_def)
              moreover have "appends (early 6) s s4" using a4 by (rule appends_mono) (erule early_mono, simp)
              ultimately show ?thesis using e(2) by auto
            qed
          next
            assume "\<exists>backup_file df sb. r4 = Inr (backup_file, df) \<and> df \<noteq> [] \<and> backup_write_ok env
                \<and> appends quiet (emit (Step 4) s3) sb \<and> trace s4 = trace sb @ [Backup_written df]"
            then obtain backup_file df sb where w: "r4 = Inr (backup_file, df)" "df \<noteq> []"
              "appends quiet (emit (Step 4) s3) sb" "trace s4 = trace sb @ [Backup_written df]"
              and wo: "backup_write_ok env" by blast
            from w(3) have "appends (early 4) (emit (Step 4) s3) sb" by (rule appends_mono) (rule quiet_early)
            with a3' have pre: "appends (early 4) s sb" by (rule appends_trans)
            define s5 where "s5 = delete_leads ?rem df (emit (Step 5) s4)"
            obtain s6 rest where ce: "send_completion_email env (emit (Step 6) s5) = (Inr (), s6)"
              "trace s6 = trace (emit (Step 6) s5) @ Email_attempt ''SmartLead Deletion Complete''
                  (log_filename # output_files (emit (Step 6) s5)) # rest"
              "list_all mail_event rest"
              using send_completion_email_result [of env "emit (Step 6) s5"] by blast
            from assms f r1 c_ne fl f_ne sl s_ne bk w(1,2) ce(1)
            have "s' = emit (Log Process_completed) s6" and ok: "res = Inr ()"
              by (simp_all add: run_steps_def s5_def Let_def)
            then have "s' = emit (Log Process_completed) s6" by simp
            moreover have "appends (late df) (emit (Backup_written df) sb) (emit (Step 5) s4)"
              using w(4) by (simp add: appends_def)
            moreover have "appends (late df) (emit (Step 5) s4) s5"
              unfolding s5_def using delete_leads_appends by (rule appends_mono) (rule deletion_late)
            moreover have "appends (late df) s5 s6"
              using ce(2,3) by (auto simp: appends_def list_all_iff intro: mail_late)
            moreover have "appends (late df) s6 (emit (Log Process_completed) s6)"
              by (rule appends_emit) simp_all
            ultimately have "appends (late df) (emit (Backup_written df) sb) s'"
              by (blast intro: appends_trans)
            with pre w(2) ok wo show ?thesis by blast
          qed
        qed
      qed
    qed
  qed
qed

lemma early_no_delete: "early k e \<Longrightarrow> \<not> is_delete_request e \<and> \<not> is_backup_written e"
  by (cases "(k, e)" rule: early.cases) (auto elim: quiet.elims)

lemma early_step: "early k (Step n) \<Longrightarrow> n \<le> k"
  by simp

lemma mail_no_delete: "mail_event e \<Longrightarrow> \<not> is_delete_request e"
  by (cases e) auto

lemma late_delete: "late df (Http_request (Delete_lead c l)) \<Longrightarrow> in_backup df c l"
  by simp

text \<open>The run with its \<^verbatim>\<open>except\<close> branch: the same two shapes, the failure mail included.\<close>

lemma run_full_process_result:
  assumes "run_full_process sort_values cfg env s = (res, s')"
  shows "appends (\<lambda>e. \<not> is_delete_request e) s s'
       \<or> (\<exists>sb df. df \<noteq> [] \<and> backup_write_ok env \<and> appends (\<lambda>e. \<not> is_delete_request e) s sb
            \<and> appends (late df) (emit (Backup_written df) sb) s')"
proof -
  obtain r1 s1 where st: "run_steps sort_values cfg env s = (r1, s1)"
    by (cases "run_steps sort_values cfg env s")
  from run_steps_result [OF st] show ?thesis
  proof
    assume "\<exists>e. r1 = Inl e \<and> appends (early (halting_step e)) s s1"
    then obtain e where e: "r1 = Inl e" "appends (early (halting_step e)) s s1" by blast
    let ?s2 = "emit (Log (Process_failed e)) s1"
    obtain s3 rest where m: "send_failure_email env e ?s2 = (Inr (), s3)"
      "trace s3 = trace ?s2 @ Email_attempt ''SmartLead Deletion FAILED'' (log_filename # output_files ?s2) # rest"
      "list_all mail_event rest"
      using send_failure_email_result [of env e ?s2] by blast
    from assms st e(1) m(1) have "s' = s3" by (simp add: run_full_process_def)
    moreover from e(2) have "appends (\<lambda>e. \<not> is_delete_request e) s s1"
      by (rule appends_mono) (simp add: early_no_delete)
    moreover have "appends (\<lambda>e. \<not> is_delete_request e) s1 s3"
      using m(2,3) by (auto simp: appends_def list_all_iff dest: mail_no_delete)
    ultimately show ?thesis by (blast intro: appends_trans)
  next
    assume "\<exists>sb df. r1 = Inr () \<and> df \<noteq> [] \<and> backup_write_ok env \<and> appends (early 4) s sb
        \<and> appends (late df) (emit (Backup_written df) sb) s1"
    then obtain sb df where b: "r1 = Inr ()" "df \<noteq> []" "appends (early 4) s sb"
      "appends (late df) (emit (Backup_written df) sb) s1" and wo: "backup_write_ok env" by blast
    from assms st b(1) have "s' = s1" by (simp add: run_full_process_def)
    moreover from b(3) have "appends (\<lambda>e. \<not> is_delete_request e) s sb"
      by (rule appends_mono) (simp add: early_no_delete)
    ultimately show ?thesis using b(2,4) wo by blast
  qed
qed

text \<open>
  Claim C2: in the trace of a run, every delete call for a lead comes after the event
  that the backup was written (\<^verbatim>\<open>to_csv\<close> returned, in \<^verbatim>\<open>create_deletion_backup\<close>),
  that backup is not empty and has a line for that lead of that campaign, and the
  writing of the backup file raised nothing. So no delete call is made when the backup
  is empty, or could not be written.
\<close>

theorem backup_written_before_any_delete:
  assumes "evs = trace (snd (run_full_process sort_values cfg env initial_state))"
    and "i < length evs" and "evs ! i = Http_request (Delete_lead c l)"
  shows "\<exists>j<i. \<exists>backup_df. evs ! j = Backup_written backup_df \<and> backup_df \<noteq> []
           \<and> in_backup backup_df c l \<and> backup_write_ok env"
proof -
  obtain res s' where run: "run_full_process sort_values cfg env initial_state = (res, s')"
    by (cases "run_full_process sort_values cfg env initial_state")
  with assms(1) have evs: "evs = trace s'" by simp
  have t0: "trace initial_state = []" by (simp add: initial_state_def)
  from run_full_process_result [OF run] show ?thesis
  proof
    assume "appends (\<lambda>e. \<not> is_delete_request e) initial_state s'"
    then have "list_all (\<lambda>e. \<not> is_delete_request e) evs" by (simp add: appends_def t0 evs)
    with assms(2) have "\<not> is_delete_request (evs ! i)" by (simp add: list_all_length)
    with assms(3) show ?thesis by simp
  next
    assume "\<exists>sb df. df \<noteq> [] \<and> backup_write_ok env \<and> appends (\<lambda>e. \<not> is_delete_request e) initial_state sb
        \<and> appends (late df) (emit (Backup_written df) sb) s'"
    then obtain sb df where b0: "df \<noteq> []" "appends (\<lambda>e. \<not> is_delete_request e) initial_state sb"
      "appends (late df) (emit (Backup_written df) sb) s'" and wo: "backup_write_ok env" by blast
    from b0(2) have b2: "list_all (\<lambda>e. \<not> is_delete_request e) (trace sb)"
      by (simp add: appends_def t0)
    from b0(3) obtain post where "trace s' = trace sb @ Backup_written df # post" "list_all (late df) post"
      by (auto simp: appends_def)
    with b0(1) b2 have b: "df \<noteq> []" "list_all (\<lambda>e. \<not> is_delete_request e) (trace sb)"
      "evs = trace sb @ Backup_written df # post" "list_all (late df) post"
      by (simp_all add: evs)
    let ?n = "length (trace sb)"
    have "\<not> i < ?n"
    proof
      assume "i < ?n"
      with b(2,3) have "\<not> is_delete_request (evs ! i)" by (simp add: list_all_length nth_append)
      with assms(3) show False by simp
    qed
    moreover have "i \<noteq> ?n" using assms(3) b(3) by auto
    ultimately have gt: "?n < i" by simp
    with b(3) assms(2) have "evs ! i = post ! (i - Suc ?n)" "i - Suc ?n < length post"
      by (auto simp: nth_append nth_Cons')
    with b(4) have "late df (evs ! i)" by (simp add: list_all_length)
    with assms(3) have "in_backup df c l" by simp
    moreover from b(3) have "evs ! ?n = Backup_written df" by simp
    ultimately show ?thesis using gt b(1) wo by blast
  qed
qed

text \<open>Each of the four conditions raises its exception.\<close>

lemma no_campaigns_fetched_halts:
  assumes "fst (fetch_all_campaigns (remote_service env) (emit (Step 1) s)) = Inr []"
  shows "fst (run_steps sort_values cfg env s) = Inl No_campaigns_retrieved"
  using assms by (auto simp: run_steps_def split: prod.splits)

lemma no_campaigns_eligible_halts:
  assumes "fetch_all_campaigns (remote_service env) (emit (Step 1) s) = (Inr campaigns, s1)"
    and "campaigns \<noteq> []"
    and "fst (filter_and_analyze_campaigns cfg (remote_service env) (local_disk env) (clock_now env) campaigns
            (emit (Step 2) s1)) = []"
  shows "fst (run_steps sort_values cfg env s) = Inl No_campaigns_match"
  using assms by (auto simp: run_steps_def split: prod.splits)

lemma no_campaigns_selected_halts:
  assumes "fetch_all_campaigns (remote_service env) (emit (Step 1) s) = (Inr campaigns, s1)"
    and "campaigns \<noteq> []"
    and "filter_and_analyze_campaigns cfg (remote_service env) (local_disk env) (clock_now env) campaigns
            (emit (Step 2) s1) = (filtered, s2)"
    and "filtered \<noteq> []"
    and "fst (select_campaigns_for_deletion sort_values cfg filtered (emit (Step 3) s2)) = []"
  shows "fst (run_steps sort_values cfg env s) = Inl No_campaigns_selected"
  using assms by (auto simp: run_steps_def split: prod.splits)

lemma empty_backup_halts:
  assumes "fetch_all_campaigns (remote_service env) (emit (Step 1) s) = (Inr campaigns, s1)"
    and "campaigns \<noteq> []"
    and "filter_and_analyze_campaigns cfg (remote_service env) (local_disk env) (clock_now env) campaigns
            (emit (Step 2) s1) = (filtered, s2)"
    and "filtered \<noteq> []"
    and "select_campaigns_for_deletion sort_values cfg filtered (emit (Step 3) s2) = (selected, s3)"
    and "selected \<noteq> []"
    and "fst (create_deletion_backup (backup_write_ok env) (remote_service env) (local_disk env) selected
            (emit (Step 4) s3)) = Inr (backup_file, [])"
  shows "fst (run_steps sort_values cfg env s) = Inl No_leads_for_backup"
  using assms by (auto simp: run_steps_def split: prod.splits)

text \<open>
  Claim C5: when the steps of a run end with one of the four exceptions of
  \<^verbatim>\<open>run_full_process\<close> (no campaigns retrieved at step 1, no campaign matching the filter
  at step 2, no campaign selected at step 3, no leads for the backup at step 4), no later
  step has begun, no backup was written and no delete call was made; the failure is
  logged, the failure mail is sent by \<^verbatim>\<open>send_email\<close> with the log and the files written so
  far (its events end with the dispatch of the mail and the log line of it, or with the
  log line of the failure of the mail; the mail is dispatched when nothing of it fails),
  the exception leaves \<^verbatim>\<open>run_full_process\<close>, and only then \<^verbatim>\<open>main\<close> reports the critical
  error and the process exits with status 1.
\<close>

theorem halting_conditions_abort_and_notify:
  assumes "validate_environment env = Inr ()"
    and "run_steps sort_values cfg env initial_state = (Inl e, s1)"
    and "e \<in> {No_campaigns_retrieved, No_campaigns_match, No_campaigns_selected, No_leads_for_backup}"
  shows "fst (main sort_values cfg env) = 1
    \<and> fst (run_full_process sort_values cfg env initial_state) = Inl e
    \<and> (\<exists>rest. trace (snd (main sort_values cfg env))
          = trace s1 @ Log (Process_failed e)
              # Email_attempt ''SmartLead Deletion FAILED'' (log_filename # output_files s1)
              # rest @ [Critical_error e, Exit_process 1]
        \<and> list_all mail_event rest
        \<and> ((\<exists>pre att. rest = pre @ [Email_dispatched ''SmartLead Deletion FAILED'' att, Log Email_ok])
           \<or> (\<exists>pre me. rest = pre @ [Log (Email_failed me)])))
    \<and> trace (snd (main sort_values cfg env))
        = trace (snd (send_email (mail env) ''SmartLead Deletion FAILED''
              ''SmartLead Lead Deletion Process FAILED'' (log_filename # output_files s1)
              (emit (Log (Process_failed e)) s1)))
          @ [Critical_error e, Exit_process 1]
    \<and> (\<not> compose_fails (mail env) \<and> \<not> smtp_fails (mail env)
        \<and> (\<forall>p\<in>set (log_filename # output_files s1). isfile (mail env) p \<longrightarrow> \<not> read_fails (mail env) p)
       \<longrightarrow> Email_dispatched ''SmartLead Deletion FAILED''
              (filter (isfile (mail env)) (log_filename # output_files s1))
            \<in> set (trace (snd (main sort_values cfg env))))
    \<and> (\<forall>n. Step n \<in> set (trace s1) \<longrightarrow> n \<le> halting_step e)
    \<and> (\<forall>ev\<in>set (trace s1). early (halting_step e) ev \<and> \<not> is_delete_request ev \<and> \<not> is_backup_written ev)
    \<and> halting_step e \<le> 4"
proof -
  let ?s2 = "emit (Log (Process_failed e)) s1"
  let ?sent = "send_email (mail env) ''SmartLead Deletion FAILED''
      ''SmartLead Lead Deletion Process FAILED'' (log_filename # output_files s1) ?s2"
  have of: "output_files ?s2 = output_files s1" by (simp add: emit_def)
  obtain s3 rest where m: "send_failure_email env e ?s2 = (Inr (), s3)"
    "s3 = snd ?sent"
    "trace s3 = trace ?s2 @ Email_attempt ''SmartLead Deletion FAILED'' (log_filename # output_files s1) # rest"
    "list_all mail_event rest"
    "(\<exists>pre att. rest = pre @ [Email_dispatched ''SmartLead Deletion FAILED'' att, Log Email_ok])
       \<or> (\<exists>pre me. rest = pre @ [Log (Email_failed me)])"
    using send_failure_email_result [of env e ?s2] unfolding of by blast
  from assms(2) m(1) have rf: "run_full_process sort_values cfg env initial_state = (Inl e, s3)"
    by (simp add: run_full_process_def)
  with assms(1) have mn: "main sort_values cfg env = (1, emit (Exit_process 1) (emit (Critical_error e) s3))"
    by (simp add: main_def)
  from mn m(3) have "trace (snd (main sort_values cfg env))
          = trace s1 @ Log (Process_failed e)
              # Email_attempt ''SmartLead Deletion FAILED'' (log_filename # output_files s1)
              # rest @ [Critical_error e, Exit_process 1]" by simp
  with m(4,5) have tr: "\<exists>rest. trace (snd (main sort_values cfg env))
          = trace s1 @ Log (Process_failed e)
              # Email_attempt ''SmartLead Deletion FAILED'' (log_filename # output_files s1)
              # rest @ [Critical_error e, Exit_process 1]
        \<and> list_all mail_event rest
        \<and> ((\<exists>pre att. rest = pre @ [Email_dispatched ''SmartLead Deletion FAILED'' att, Log Email_ok])
           \<or> (\<exists>pre me. rest = pre @ [Log (Email_failed me)]))"
    by blast
  from mn m(2) have sd: "trace (snd (main sort_values cfg env)) = trace (snd ?sent) @ [Critical_error e, Exit_process 1]"
    by simp
  have dp: "\<not> compose_fails (mail env) \<and> \<not> smtp_fails (mail env)
        \<and> (\<forall>p\<in>set (log_filename # output_files s1). isfile (mail env) p \<longrightarrow> \<not> read_fails (mail env) p)
       \<longrightarrow> Email_dispatched ''SmartLead Deletion FAILED''
              (filter (isfile (mail env)) (log_filename # output_files s1))
            \<in> set (trace (snd (main sort_values cfg env)))"
  proof
    assume a: "\<not> compose_fails (mail env) \<and> \<not> smtp_fails (mail env)
        \<and> (\<forall>p\<in>set (log_filename # output_files s1). isfile (mail env) p \<longrightarrow> \<not> read_fails (mail env) p)"
    then have "Email_dispatched ''SmartLead Deletion FAILED''
        (filter (isfile (mail env)) (log_filename # output_files s1)) \<in> set (trace (snd ?sent))"
      by (intro send_email_sends) blast+
    with sd show "Email_dispatched ''SmartLead Deletion FAILED''
              (filter (isfile (mail env)) (log_filename # output_files s1))
            \<in> set (trace (snd (main sort_values cfg env)))" by simp
  qed
  have t0: "trace initial_state = []" by (simp add: initial_state_def)
  from run_steps_result [OF assms(2)] have "appends (early (halting_step e)) initial_state s1"
    by auto
  then have ea: "list_all (early (halting_step e)) (trace s1)" by (simp add: appends_def t0)
  then have steps: "\<forall>n. Step n \<in> set (trace s1) \<longrightarrow> n \<le> halting_step e"
    by (auto simp: list_all_iff dest: early_step)
  from ea have nd: "\<forall>ev\<in>set (trace s1). early (halting_step e) ev \<and> \<not> is_delete_request ev \<and> \<not> is_backup_written ev"
    by (auto simp: list_all_iff dest: early_no_delete)
  from assms(3) have h4: "halting_step e \<le> 4" by auto
  from mn have m1: "fst (main sort_values cfg env) = 1" by simp
  from rf have r1: "fst (run_full_process sort_values cfg env initial_state) = Inl e" by simp
  from m1 r1 tr sd dp steps nd h4 show ?thesis by (intro conjI) assumption+
qed
section \<open>Concrete runs\<close>

text \<open>The trace of a run that goes through all six steps.\<close>

lemma example_run_trace:
  "trace (snd (run_full_process stable_sort_desc script_config (example_env example_service) initial_state))
    = [Step 1, Http_request List_campaigns,
       Step 2, Http_request (Leads_export (Some 1)),
       Report_written [example_row 1 1],
       Step 3, Step 4, Http_request (Leads_export (Some 1)),
       Backup_written [\<lparr>b_lead = \<lparr>lead_id = Some 42, reply_count = Number 0\<rparr>,
          b_campaign_id = Some 1, b_campaign_name = ''campaign''\<rparr>],
       Step 5, Http_request (Delete_lead 1 42), Rate_limit_sleep,
       Step 6,
       Email_attempt ''SmartLead Deletion Complete''
         [log_filename, ''all_campaigns_analysis.csv'', ''leads_deletion_backup.csv''],
       Log (Attachment_not_found ''all_campaigns_analysis.csv''),
       Log (Attachment_not_found ''leads_deletion_backup.csv''),
       Email_dispatched ''SmartLead Deletion Complete'' [log_filename],
       Log Email_ok, Log Completion_email_ok, Log Process_completed]"
  by (simp add: run_full_process_def run_steps_def fetch_all_campaigns_def send_request_unfold
      example_env_def example_service_def campaigns_response_def export_response_def ok_response_def
      raises_for_status_def truthy_def initial_state_def emit_def
      filter_and_analyze_campaigns_def example_campaign_def include_campaign_def script_config_def
      DAYS_WITHOUT_ACTIVITY_def EXCLUDE_CLIENT_IDS_def TARGET_LEADS_def forty_days_def day_us_def
      export_leads_csv_def export_and_count_def file_op_def equals_zero_def analyze_campaign_leads_def Let_def
      select_campaigns_for_deletion_def stable_sort_desc_def
      create_deletion_backup_def tag_lead_def delete_leads_def delete_single_lead_def
      send_completion_email_def send_email_def send_email_try_def example_mail_env_def log_filename_def
      example_row_def)

text \<open>
  In the run through all six steps the delete call for lead 42 of campaign 1 is the
  event number 10, the backup with that lead was written before it, and the writing of
  the backup file raised nothing.
\<close>

theorem backup_written_before_any_delete_witness:
  "10 < length (trace (snd (run_full_process stable_sort_desc script_config (example_env example_service) initial_state)))
   \<and> trace (snd (run_full_process stable_sort_desc script_config (example_env example_service) initial_state)) ! 10
       = Http_request (Delete_lead 1 42)
   \<and> (\<exists>j<10. \<exists>backup_df.
         trace (snd (run_full_process stable_sort_desc script_config (example_env example_service) initial_state)) ! j
           = Backup_written backup_df
         \<and> backup_df \<noteq> [] \<and> in_backup backup_df 1 42)
   \<and> backup_write_ok (example_env example_service)"
proof -
  let ?evs = "trace (snd (run_full_process stable_sort_desc script_config (example_env example_service) initial_state))"
  have l: "10 < length ?evs" and d: "?evs ! 10 = Http_request (Delete_lead 1 42)"
    by (simp_all add: example_run_trace)
  from backup_written_before_any_delete [OF refl l d] l d show ?thesis by blast
qed

lemma fetch_all_campaigns_no_reply:
  "fst (fetch_all_campaigns (\<lambda>n. No_reply) s) = Inr []"
proof -
  have "fst (send_request (\<lambda>n. No_reply) List_campaigns s) = None"
    unfolding send_request_def by (rule send_request_from_no_reply) simp
  then show ?thesis
    by (auto simp: fetch_all_campaigns_def split: prod.splits option.splits)
qed

lemma example_env_valid: "validate_environment (example_env rem) = Inr ()"
  by (simp add: validate_environment_def example_env_def)

lemma silent_run_halts:
  "fst (run_steps stable_sort_desc script_config (example_env (\<lambda>n. No_reply)) initial_state)
     = Inl No_campaigns_retrieved"
  by (rule no_campaigns_fetched_halts) (simp add: example_env_def fetch_all_campaigns_no_reply)

lemma active_run_halts:
  "fst (run_steps stable_sort_desc script_config
      (example_env (\<lambda>n. Reply (campaigns_response [example_campaign\<lparr>c_status := ''ACTIVE''\<rparr>]))) initial_state)
     = Inl No_campaigns_match"
proof (rule no_campaigns_eligible_halts)
  let ?env = "example_env (\<lambda>n. Reply (campaigns_response [example_campaign\<lparr>c_status := ''ACTIVE''\<rparr>]))"
  show "fetch_all_campaigns (remote_service ?env) (emit (Step 1) initial_state)
      = (Inr [example_campaign\<lparr>c_status := ''ACTIVE''\<rparr>],
         (emit (Http_request List_campaigns) (emit (Step 1) initial_state))\<lparr>requests := Suc 0\<rparr>)"
    by (simp add: fetch_all_campaigns_def send_request_unfold example_env_def campaigns_response_def
        raises_for_status_def truthy_def initial_state_def emit_def)
  show "[example_campaign\<lparr>c_status := ''ACTIVE''\<rparr>] \<noteq> []" by simp
  show "fst (filter_and_analyze_campaigns script_config (remote_service ?env) (local_disk ?env) (clock_now ?env)
          [example_campaign\<lparr>c_status := ''ACTIVE''\<rparr>]
          (emit (Step 2) ((emit (Http_request List_campaigns) (emit (Step 1) initial_state))\<lparr>requests := Suc 0\<rparr>))) = []"
    by (simp add: filtered_campaigns_eq claimed_inclusion_def)
qed

lemma listing_run_halts:
  "fst (run_steps stable_sort_desc script_config (example_env listing_service) initial_state)
     = Inl No_campaigns_selected"
  by (simp add: run_steps_def fetch_all_campaigns_def send_request_unfold
      example_env_def listing_service_def campaigns_response_def
      raises_for_status_def truthy_def initial_state_def emit_def
      filter_and_analyze_campaigns_def example_campaign_def include_campaign_def script_config_def
      DAYS_WITHOUT_ACTIVITY_def EXCLUDE_CLIENT_IDS_def TARGET_LEADS_def forty_days_def day_us_def
      export_leads_csv_def export_and_count_def file_op_def Let_def select_campaigns_for_deletion_def stable_sort_desc_def)

lemma vanishing_run_halts:
  "fst (run_steps stable_sort_desc script_config (example_env vanishing_service) initial_state)
     = Inl No_leads_for_backup"
  by (simp add: run_steps_def fetch_all_campaigns_def send_request_unfold
      example_env_def vanishing_service_def campaigns_response_def export_response_def
      raises_for_status_def truthy_def initial_state_def emit_def
      filter_and_analyze_campaigns_def example_campaign_def include_campaign_def script_config_def
      DAYS_WITHOUT_ACTIVITY_def EXCLUDE_CLIENT_IDS_def TARGET_LEADS_def forty_days_def day_us_def
      export_leads_csv_def export_and_count_def file_op_def equals_zero_def analyze_campaign_leads_def Let_def
      select_campaigns_for_deletion_def stable_sort_desc_def create_deletion_backup_def)

text \<open>
  The four conditions, each at a concrete service: one that never replies ends the run
  at step 1, one that lists an active campaign at step 2, one whose exports are no CSV
  at step 3, one whose second export has no lead at step 4. The process exits with
  status 1 each time, and the following step has not begun. In the first run the
  failure mail is dispatched with the log, the only attachment that is a file.
\<close>

theorem halting_conditions_abort_and_notify_witness:
  "validate_environment (example_env (\<lambda>n. No_reply)) = Inr ()
   \<and> fst (run_steps stable_sort_desc script_config (example_env (\<lambda>n. No_reply)) initial_state)
       = Inl No_campaigns_retrieved
   \<and> fst (main stable_sort_desc script_config (example_env (\<lambda>n. No_reply))) = 1
   \<and> Step 2 \<notin> set (trace (snd (run_steps stable_sort_desc script_config (example_env (\<lambda>n. No_reply)) initial_state)))
   \<and> fst (run_steps stable_sort_desc script_config
        (example_env (\<lambda>n. Reply (campaigns_response [example_campaign\<lparr>c_status := ''ACTIVE''\<rparr>]))) initial_state)
       = Inl No_campaigns_match
   \<and> fst (main stable_sort_desc script_config
        (example_env (\<lambda>n. Reply (campaigns_response [example_campaign\<lparr>c_status := ''ACTIVE''\<rparr>])))) = 1
   \<and> Step 3 \<notin> set (trace (snd (run_steps stable_sort_desc script_config
        (example_env (\<lambda>n. Reply (campaigns_response [example_campaign\<lparr>c_status := ''ACTIVE''\<rparr>]))) initial_state)))
   \<and> fst (run_steps stable_sort_desc script_config (example_env listing_service) initial_state)
       = Inl No_campaigns_selected
   \<and> fst (main stable_sort_desc script_config (example_env listing_service)) = 1
   \<and> Step 4 \<notin> set (trace (snd (run_steps stable_sort_desc script_config (example_env listing_service) initial_state)))
   \<and> fst (run_steps stable_sort_desc script_config (example_env vanishing_service) initial_state)
       = Inl No_leads_for_backup
   \<and> fst (main stable_sort_desc script_config (example_env vanishing_service)) = 1
   \<and> Step 5 \<notin> set (trace (snd (run_steps stable_sort_desc script_config (example_env vanishing_service) initial_state)))
   \<and> Email_dispatched ''SmartLead Deletion FAILED''
        (filter (isfile example_mail_env) (log_filename # output_files
           (snd (run_steps stable_sort_desc script_config (example_env (\<lambda>n. No_reply)) initial_state))))
      \<in> set (trace (snd (main stable_sort_desc script_config (example_env (\<lambda>n. No_reply)))))"
proof -
  let ?e1 = "example_env (\<lambda>n. No_reply)"
  let ?e2 = "example_env (\<lambda>n. Reply (campaigns_response [example_campaign\<lparr>c_status := ''ACTIVE''\<rparr>]))"
  let ?e3 = "example_env listing_service"
  let ?e4 = "example_env vanishing_service"
  have r1: "run_steps stable_sort_desc script_config ?e1 initial_state
      = (Inl No_campaigns_retrieved, snd (run_steps stable_sort_desc script_config ?e1 initial_state))"
    using silent_run_halts by (metis prod.collapse)
  have r2: "run_steps stable_sort_desc script_config ?e2 initial_state
      = (Inl No_campaigns_match, snd (run_steps stable_sort_desc script_config ?e2 initial_state))"
    using active_run_halts by (metis prod.collapse)
  have r3: "run_steps stable_sort_desc script_config ?e3 initial_state
      = (Inl No_campaigns_selected, snd (run_steps stable_sort_desc script_config ?e3 initial_state))"
    using listing_run_halts by (metis prod.collapse)
  have r4: "run_steps stable_sort_desc script_config ?e4 initial_state
      = (Inl No_leads_for_backup, snd (run_steps stable_sort_desc script_config ?e4 initial_state))"
    using vanishing_run_halts by (metis prod.collapse)
  from halting_conditions_abort_and_notify [OF example_env_valid r1]
  have 1: "fst (main stable_sort_desc script_config ?e1) = 1"
    "Step 2 \<notin> set (trace (snd (run_steps stable_sort_desc script_config ?e1 initial_state)))"
    by auto
  from halting_conditions_abort_and_notify [OF example_env_valid r2]
  have 2: "fst (main stable_sort_desc script_config ?e2) = 1"
    "Step 3 \<notin> set (trace (snd (run_steps stable_sort_desc script_config ?e2 initial_state)))"
    by auto
  from halting_conditions_abort_and_notify [OF example_env_valid r3]
  have 3: "fst (main stable_sort_desc script_config ?e3) = 1"
    "Step 4 \<notin> set (trace (snd (run_steps stable_sort_desc script_config ?e3 initial_state)))"
    by auto
  from halting_conditions_abort_and_notify [OF example_env_valid r4]
  have 4: "fst (main stable_sort_desc script_config ?e4) = 1"
    "Step 5 \<notin> set (trace (snd (run_steps stable_sort_desc script_config ?e4 initial_state)))"
    by auto
  have ml: "\<not> compose_fails (mail ?e1) \<and> \<not> smtp_fails (mail ?e1)
      \<and> (\<forall>p\<in>set (log_filename # output_files (snd (run_steps stable_sort_desc script_config ?e1 initial_state))).
            isfile (mail ?e1) p \<longrightarrow> \<not> read_fails (mail ?e1) p)"
    by (simp add: example_env_def example_mail_env_def)
  have me: "mail ?e1 = example_mail_env" by (simp add: example_env_def)
  from halting_conditions_abort_and_notify [OF example_env_valid r1] ml
  have "Email_dispatched ''SmartLead Deletion FAILED''
        (filter (isfile (mail ?e1)) (log_filename # output_files
           (snd (run_steps stable_sort_desc script_config ?e1 initial_state))))
      \<in> set (trace (snd (main stable_sort_desc script_config ?e1)))" by blast
  then have 5: "Email_dispatched ''SmartLead Deletion FAILED''
        (filter (isfile example_mail_env) (log_filename # output_files
           (snd (run_steps stable_sort_desc script_config ?e1 initial_state))))
      \<in> set (trace (snd (main stable_sort_desc script_config ?e1)))" unfolding me .
  from 1 2 3 4 5 example_env_valid silent_run_halts active_run_halts listing_run_halts vanishing_run_halts
  show ?thesis by (intro conjI) (assumption | rule example_env_valid)+
qed

end
